theory Spec2Isabelle
  imports Main
begin

section \<open>Values, objects and the store\<close>

text \<open>
  The wrappers of \<^verbatim>\<open>src/type/wrappers.js\<close> are JavaScript objects compared by
  reference and memoised in a \<^verbatim>\<open>WeakMap\<close> keyed by object identity. The model keeps an
  explicit store: an object is its address, the heap is the list of the objects created so
  far, and \<^verbatim>\<open>===\<close> on objects is equality of addresses.
\<close>

type_synonym addr = nat

text \<open>A JavaScript value as this layer sees it: \<^verbatim>\<open>undefined\<close>, \<^verbatim>\<open>null\<close> or an object.\<close>

datatype val = Undefined | Null | Ref addr

text \<open>
  The six classes of named types. An object on the heap is an instance of one of them
  (carrying its \<^verbatim>\<open>name\<close>), a \<^verbatim>\<open>GraphQLList\<close> or \<^verbatim>\<open>GraphQLNonNull\<close> instance
  (carrying its \<^verbatim>\<open>ofType\<close> field), or any other object (a type class itself,
  \<^verbatim>\<open>{ what: 'is this' }\<close>).
\<close>

datatype kind = Scalar | Object | Interface | Union | Enum | InputObject

datatype obj =
    NamedObj kind string
  | ListObj val
  | NonNullObj val
  | OtherObj

type_synonym heap = "obj list"

text \<open>
  Reading an address. Every reference of a running program points into the heap; an address
  beyond it is read as an unrelated object, so that no predicate accepts it.
\<close>

definition obj_at :: "heap \<Rightarrow> addr \<Rightarrow> obj" where
  "obj_at h a = (if a < length h then h ! a else OtherObj)"

text \<open>\<^verbatim>\<open>type CacheTypeKey = ']' | '!'\<close>\<close>

datatype CacheTypeKey = KList | KNonNull

text \<open>
  \<^verbatim>\<open>type TypeCacheMap = { [CacheTypeKey]: GraphQLType }\<close>: the per-inner-type record of
  the cache, and \<^verbatim>\<open>wrapperCache\<close>, keyed by the identity of the inner type.
\<close>

type_synonym TypeCacheMap = "CacheTypeKey \<rightharpoonup> val"

record state =
  heap :: heap
  wrapperCache :: "addr \<rightharpoonup> TypeCacheMap"

text \<open>
  Every failure of this layer is a thrown JavaScript \<^verbatim>\<open>Error\<close>; the constructors record
  which \<^verbatim>\<open>throw\<close> it was and the value in its message.
\<close>

datatype error =
    ZeroLengthWrapSpec
  | InvalidWrapSpecChar char
  | ExpectedType val
  | ExpectedNullableType val
  | InvalidWeakMapKey

type_synonym 'a result = "(error + 'a) \<times> state"

section \<open>The classifier of \<^verbatim>\<open>./definition\<close>\<close>

text \<open>
  Modelled from the spec: \<^verbatim>\<open>src/type/definition.js\<close> (the predicates, the assertions and
  the unwrap helpers that \<^verbatim>\<open>wrappers.js\<close> imports and its tests exercise) is not part of the
  sources. Section 4.3 of the specification: a base-variant predicate is true iff the
  top-level discriminant of the value is exactly that variant, with no unwrapping;
  \<^verbatim>\<open>isType\<close> is true for any named or wrapping type instance and false for unrelated values.
\<close>

definition isInstance :: "kind \<Rightarrow> heap \<Rightarrow> val \<Rightarrow> bool" where
  "isInstance c h v =
     (case v of Ref a \<Rightarrow> (case obj_at h a of NamedObj c' _ \<Rightarrow> c' = c | _ \<Rightarrow> False) | _ \<Rightarrow> False)"

definition isScalarType :: "heap \<Rightarrow> val \<Rightarrow> bool" where
  "isScalarType h v = isInstance Scalar h v"

definition isObjectType :: "heap \<Rightarrow> val \<Rightarrow> bool" where
  "isObjectType h v = isInstance Object h v"

definition isInterfaceType :: "heap \<Rightarrow> val \<Rightarrow> bool" where
  "isInterfaceType h v = isInstance Interface h v"

definition isUnionType :: "heap \<Rightarrow> val \<Rightarrow> bool" where
  "isUnionType h v = isInstance Union h v"

definition isEnumType :: "heap \<Rightarrow> val \<Rightarrow> bool" where
  "isEnumType h v = isInstance Enum h v"

definition isInputObjectType :: "heap \<Rightarrow> val \<Rightarrow> bool" where
  "isInputObjectType h v = isInstance InputObject h v"

definition isListType :: "heap \<Rightarrow> val \<Rightarrow> bool" where
  "isListType h v = (case v of Ref a \<Rightarrow> (case obj_at h a of ListObj _ \<Rightarrow> True | _ \<Rightarrow> False) | _ \<Rightarrow> False)"

definition isNonNullType :: "heap \<Rightarrow> val \<Rightarrow> bool" where
  "isNonNullType h v = (case v of Ref a \<Rightarrow> (case obj_at h a of NonNullObj _ \<Rightarrow> True | _ \<Rightarrow> False) | _ \<Rightarrow> False)"

definition isType :: "heap \<Rightarrow> val \<Rightarrow> bool" where
  "isType h v \<longleftrightarrow>
     isScalarType h v \<or> isObjectType h v \<or> isInterfaceType h v \<or> isUnionType h v \<or>
     isEnumType h v \<or> isInputObjectType h v \<or> isListType h v \<or> isNonNullType h v"

text \<open>
  Modelled from the spec: the derived categories of section 4.3 that are decided at the top
  level. A nullable type is a type that is not itself NonNull (``any NamedType or List'').
\<close>

definition isLeafType :: "heap \<Rightarrow> val \<Rightarrow> bool" where
  "isLeafType h v \<longleftrightarrow> isScalarType h v \<or> isEnumType h v"

definition isCompositeType :: "heap \<Rightarrow> val \<Rightarrow> bool" where
  "isCompositeType h v \<longleftrightarrow> isObjectType h v \<or> isInterfaceType h v \<or> isUnionType h v"

definition isAbstractType :: "heap \<Rightarrow> val \<Rightarrow> bool" where
  "isAbstractType h v \<longleftrightarrow> isInterfaceType h v \<or> isUnionType h v"

definition isWrappingType :: "heap \<Rightarrow> val \<Rightarrow> bool" where
  "isWrappingType h v \<longleftrightarrow> isListType h v \<or> isNonNullType h v"

definition isNullableType :: "heap \<Rightarrow> val \<Rightarrow> bool" where
  "isNullableType h v \<longleftrightarrow> isType h v \<and> \<not> isNonNullType h v"

definition isNamedType :: "heap \<Rightarrow> val \<Rightarrow> bool" where
  "isNamedType h v \<longleftrightarrow> isType h v \<and> \<not> isListType h v \<and> \<not> isNonNullType h v"

text \<open>The \<^verbatim>\<open>ofType\<close> field of a wrapper; reading it off anything else gives \<^verbatim>\<open>undefined\<close>.\<close>

definition ofType :: "heap \<Rightarrow> val \<Rightarrow> val" where
  "ofType h v =
     (case v of
        Ref a \<Rightarrow> (case obj_at h a of ListObj t \<Rightarrow> t | NonNullObj t \<Rightarrow> t | _ \<Rightarrow> Undefined)
      | _ \<Rightarrow> Undefined)"

text \<open>
  Modelled from the spec: the recursive categories. \<^verbatim>\<open>isInputType\<close> is Scalar, Enum,
  InputObject, or a List/NonNull whose immediate inner type is itself an input type;
  \<^verbatim>\<open>isOutputType\<close> is Scalar, Object, Interface, Union, Enum, or a List/NonNull whose
  immediate inner type is itself an output type. The recursion follows \<^verbatim>\<open>ofType\<close> through
  the heap, so not returning is the value \<open>None\<close>.
\<close>

partial_function (option) isInputType :: "heap \<Rightarrow> val \<Rightarrow> bool option" where
  "isInputType h v =
     (if isScalarType h v \<or> isEnumType h v \<or> isInputObjectType h v then Some True
      else if isWrappingType h v then isInputType h (ofType h v)
      else Some False)"

partial_function (option) isOutputType :: "heap \<Rightarrow> val \<Rightarrow> bool option" where
  "isOutputType h v =
     (if isScalarType h v \<or> isObjectType h v \<or> isInterfaceType h v \<or> isUnionType h v \<or>
         isEnumType h v then Some True
      else if isWrappingType h v then isOutputType h (ofType h v)
      else Some False)"

text \<open>
  Modelled from the spec: an assertion returns its argument when the predicate holds and
  throws otherwise, the message naming the rejected value.
\<close>

definition assertType :: "heap \<Rightarrow> val \<Rightarrow> error + val" where
  "assertType h v = (if isType h v then Inr v else Inl (ExpectedType v))"

definition assertNullableType :: "heap \<Rightarrow> val \<Rightarrow> error + val" where
  "assertNullableType h v = (if isNullableType h v then Inr v else Inl (ExpectedNullableType v))"

text \<open>
  Modelled from the spec (section 4.4): \<^verbatim>\<open>getNullableType\<close> returns \<^verbatim>\<open>undefined\<close> if the
  type is absent; if it is NonNull, its immediate inner type; otherwise the type unchanged.
\<close>

definition absent :: "val \<Rightarrow> bool" where
  "absent v = (case v of Undefined \<Rightarrow> True | Null \<Rightarrow> True | Ref _ \<Rightarrow> False)"

definition getNullableType :: "heap \<Rightarrow> val \<Rightarrow> val" where
  "getNullableType h v =
     (if absent v then Undefined
      else if isNonNullType h v then ofType h v
      else v)"

text \<open>
  Modelled from the spec (section 4.4): \<^verbatim>\<open>getNamedType\<close> returns \<^verbatim>\<open>undefined\<close> if the type
  is absent; otherwise it strips List/NonNull layers repeatedly until what is left is not a
  wrapper. The loop follows the heap, so not returning is the value \<open>None\<close>.
\<close>

partial_function (option) unwrapLoop :: "heap \<Rightarrow> val \<Rightarrow> val option" where
  "unwrapLoop h v = (if isWrappingType h v then unwrapLoop h (ofType h v) else Some v)"

definition getNamedType :: "heap \<Rightarrow> val \<Rightarrow> val option" where
  "getNamedType h v = (if absent v then Some Undefined else unwrapLoop h v)"

text \<open>
  Modelled from the spec: a named type carries a \<^verbatim>\<open>name\<close> used for display, and renders as
  that name (the end-to-end scenario renders the Object type named \<^verbatim>\<open>"Object"\<close> inside
  \<^verbatim>\<open>"[Object!]"\<close>).
\<close>

definition nameOf :: "obj \<Rightarrow> string" where
  "nameOf ob = (case ob of NamedObj _ n \<Rightarrow> n | _ \<Rightarrow> ''[object Object]'')"

section \<open>\<^verbatim>\<open>src/type/wrappers.js\<close>\<close>

text \<open>Allocation of a fresh object: \<^verbatim>\<open>new\<close> returns an address no object had before.\<close>

definition alloc :: "state \<Rightarrow> obj \<Rightarrow> val \<times> state" where
  "alloc s ob = (Ref (length (heap s)), s\<lparr>heap := heap s @ [ob]\<rparr>)"

text \<open>
  \<^verbatim>\<open>GraphQLList\<close> invoked with \<^verbatim>\<open>new\<close> (\<^verbatim>\<open>this instanceof GraphQLList\<close>):
  \<^verbatim>\<open>this.ofType = assertType(ofType)\<close>. When the assertion throws, the half-built
  \<^verbatim>\<open>this\<close> is unreachable and the state is as before.
\<close>

definition GraphQLList_new :: "state \<Rightarrow> val \<Rightarrow> val result" where
  "GraphQLList_new s t =
     (case assertType (heap s) t of
        Inl e \<Rightarrow> (Inl e, s)
      | Inr t' \<Rightarrow> (case alloc s (ListObj t') of (w, s') \<Rightarrow> (Inr w, s')))"

text \<open>\<^verbatim>\<open>GraphQLNonNull\<close> invoked with \<^verbatim>\<open>new\<close>: \<^verbatim>\<open>this.ofType = assertNullableType(ofType)\<close>.\<close>

definition GraphQLNonNull_new :: "state \<Rightarrow> val \<Rightarrow> val result" where
  "GraphQLNonNull_new s t =
     (case assertNullableType (heap s) t of
        Inl e \<Rightarrow> (Inl e, s)
      | Inr t' \<Rightarrow> (case alloc s (NonNullObj t') of (w, s') \<Rightarrow> (Inr w, s')))"

text \<open>JavaScript truthiness of a value: \<^verbatim>\<open>!x\<close> is its negation.\<close>

definition truthy :: "val \<Rightarrow> bool" where
  "truthy v = (case v of Ref _ \<Rightarrow> True | _ \<Rightarrow> False)"

text \<open>Reading a property of a \<^verbatim>\<open>TypeCacheMap\<close>: a missing key reads as \<^verbatim>\<open>undefined\<close>.\<close>

definition getSlot :: "TypeCacheMap \<Rightarrow> CacheTypeKey \<Rightarrow> val" where
  "getSlot m k = (case m k of None \<Rightarrow> Undefined | Some w \<Rightarrow> w)"

text \<open>
  \<^verbatim>\<open>lookupOrMake(ofType, specChar, cons)\<close>. \<^verbatim>\<open>wrapperCache.get\<close> of a key without an
  entry is \<^verbatim>\<open>undefined\<close>, and then an empty record is stored for the key; a \<^verbatim>\<open>WeakMap\<close>
  refuses a key that is not an object with a \<^verbatim>\<open>TypeError\<close>. The record is updated in
  place, so the model writes it back under the key. \<open>cons\<close> is the constructor invoked
  with \<^verbatim>\<open>new\<close>.
\<close>

definition lookupOrMake ::
  "state \<Rightarrow> val \<Rightarrow> CacheTypeKey \<Rightarrow> (state \<Rightarrow> val \<Rightarrow> val result) \<Rightarrow> val result" where
  "lookupOrMake s t specChar cons =
     (case t of
        Ref a \<Rightarrow>
          (let thisObjectMap = (case wrapperCache s a of None \<Rightarrow> Map.empty | Some m \<Rightarrow> m);
               s1 = (if wrapperCache s a = None
                     then s\<lparr>wrapperCache := (wrapperCache s)(a \<mapsto> Map.empty)\<rparr> else s)
           in if \<not> truthy (getSlot thisObjectMap specChar) then
                (case cons s1 t of
                   (Inl e, s2) \<Rightarrow> (Inl e, s2)
                 | (Inr w, s2) \<Rightarrow>
                     (Inr w, s2\<lparr>wrapperCache := (wrapperCache s2)(a \<mapsto> thisObjectMap(specChar \<mapsto> w))\<rparr>))
              else (Inr (getSlot thisObjectMap specChar), s1))
      | _ \<Rightarrow> (Inl InvalidWeakMapKey, s))"

text \<open>
  \<^verbatim>\<open>GraphQLList(ofType)\<close> called without \<^verbatim>\<open>new\<close>: \<^verbatim>\<open>assertType(ofType)\<close>, then
  \<^verbatim>\<open>lookupOrMake(ofType, ']', GraphQLList)\<close>.
\<close>

definition GraphQLList :: "state \<Rightarrow> val \<Rightarrow> val result" where
  "GraphQLList s t =
     (case assertType (heap s) t of
        Inl e \<Rightarrow> (Inl e, s)
      | Inr _ \<Rightarrow> lookupOrMake s t KList GraphQLList_new)"

text \<open>
  \<^verbatim>\<open>GraphQLNonNull(ofType)\<close> called without \<^verbatim>\<open>new\<close>: \<^verbatim>\<open>assertNullableType(ofType)\<close>, then
  \<^verbatim>\<open>lookupOrMake(ofType, '!', GraphQLNonNull)\<close>.
\<close>

definition GraphQLNonNull :: "state \<Rightarrow> val \<Rightarrow> val result" where
  "GraphQLNonNull s t =
     (case assertNullableType (heap s) t of
        Inl e \<Rightarrow> (Inl e, s)
      | Inr _ \<Rightarrow> lookupOrMake s t KNonNull GraphQLNonNull_new)"

text \<open>
  \<^verbatim>\<open>String(v)\<close> with the two \<^verbatim>\<open>toString\<close> methods of the wrappers:
  \<^verbatim>\<open>'[' + String(this.ofType) + ']'\<close> for a list and \<^verbatim>\<open>String(this.ofType) + '!'\<close> for a
  non-null. The methods call each other through the heap, so not returning is \<open>None\<close>.
\<close>

partial_function (option) toString :: "heap \<Rightarrow> val \<Rightarrow> string option" where
  "toString h v =
     (case v of
        Undefined \<Rightarrow> Some ''undefined''
      | Null \<Rightarrow> Some ''null''
      | Ref a \<Rightarrow>
          (case obj_at h a of
             ListObj t \<Rightarrow> Option.bind (toString h t) (\<lambda>r. Some (''['' @ r @ '']''))
           | NonNullObj t \<Rightarrow> Option.bind (toString h t) (\<lambda>r. Some (r @ ''!''))
           | ob \<Rightarrow> Some (nameOf ob)))"

text \<open>
  One step of the reducer of \<^verbatim>\<open>wrapType\<close>: the \<^verbatim>\<open>switch\<close> on the spec character.
\<close>

definition wrapStep :: "state \<Rightarrow> val \<Rightarrow> char \<Rightarrow> val result" where
  "wrapStep s t specChar =
     (if specChar = CHR '']'' then GraphQLList s t
      else if specChar = CHR ''!'' then GraphQLNonNull s t
      else (Inl (InvalidWrapSpecChar specChar), s))"

text \<open>
  \<^verbatim>\<open>Array.prototype.reduce\<close> with an initial value: the callback runs on the elements from
  left to right; an exception thrown by it ends the reduction with the state as it is then.
\<close>

fun reduce :: "state \<Rightarrow> val \<Rightarrow> string \<Rightarrow> val result" where
  "reduce s t [] = (Inr t, s)"
| "reduce s t (c # cs) =
     (case wrapStep s t c of
        (Inl e, s') \<Rightarrow> (Inl e, s')
      | (Inr t', s') \<Rightarrow> reduce s' t' cs)"

text \<open>
  Modelled from the spec: \<^verbatim>\<open>invariant(condition, message)\<close> of \<^verbatim>\<open>jsutils/invariant\<close> is
  not part of the sources. The spec has \<^verbatim>\<open>wrapType\<close> fail on an empty spec, which is the
  condition the code passes to it: a false condition throws an \<^verbatim>\<open>Error\<close> with the message.
\<close>

definition invariant :: "bool \<Rightarrow> error \<Rightarrow> error + unit" where
  "invariant condition e = (if condition then Inr () else Inl e)"

text \<open>
  \<^verbatim>\<open>wrapType(ofType, wrapSpec)\<close>: \<^verbatim>\<open>invariant(wrapSpec !== '', 'Zero-length wrapSpec given.')\<close>,
  then the reduction of \<^verbatim>\<open>wrapSpec.split('')\<close> from \<^verbatim>\<open>ofType\<close>.
\<close>

definition wrapType :: "state \<Rightarrow> val \<Rightarrow> string \<Rightarrow> val result" where
  "wrapType s t wrapSpec =
     (case invariant (wrapSpec \<noteq> []) ZeroLengthWrapSpec of
        Inl e \<Rightarrow> (Inl e, s)
      | Inr _ \<Rightarrow> reduce s t wrapSpec)"

section \<open>Auxiliary notions\<close>

text \<open>What a lookup of \<^verbatim>\<open>wrapperCache.get(a)[k]\<close> sees: \<^verbatim>\<open>undefined\<close> without an entry.\<close>

definition slot :: "state \<Rightarrow> addr \<Rightarrow> CacheTypeKey \<Rightarrow> val" where
  "slot s a k = (case wrapperCache s a of None \<Rightarrow> Undefined | Some m \<Rightarrow> getSlot m k)"

text \<open>The object that the constructor of kind \<open>k\<close> builds over \<open>t\<close>.\<close>

definition wrapper :: "CacheTypeKey \<Rightarrow> val \<Rightarrow> obj" where
  "wrapper k t = (case k of KList \<Rightarrow> ListObj t | KNonNull \<Rightarrow> NonNullObj t)"

text \<open>The state after \<^verbatim>\<open>thisObjectMap[k] = w\<close> on the record of the key \<open>a\<close>.\<close>

definition cached :: "state \<Rightarrow> addr \<Rightarrow> CacheTypeKey \<Rightarrow> val \<Rightarrow> state" where
  "cached s a k w =
     s\<lparr>wrapperCache := (wrapperCache s)
         (a \<mapsto> (case wrapperCache s a of None \<Rightarrow> Map.empty | Some m \<Rightarrow> m)(k \<mapsto> w))\<rparr>"

text \<open>
  The two wrapper kinds treated uniformly: the check a kind makes on its argument, the error
  it throws, its call form and its \<^verbatim>\<open>new\<close> form.
\<close>

definition accepts :: "CacheTypeKey \<Rightarrow> heap \<Rightarrow> val \<Rightarrow> bool" where
  "accepts k h t = (case k of KList \<Rightarrow> isType h t | KNonNull \<Rightarrow> isNullableType h t)"

definition rejected :: "CacheTypeKey \<Rightarrow> val \<Rightarrow> error" where
  "rejected k t = (case k of KList \<Rightarrow> ExpectedType t | KNonNull \<Rightarrow> ExpectedNullableType t)"

definition factory :: "CacheTypeKey \<Rightarrow> state \<Rightarrow> val \<Rightarrow> val result" where
  "factory k s t = (case k of KList \<Rightarrow> GraphQLList s t | KNonNull \<Rightarrow> GraphQLNonNull s t)"

definition construct :: "CacheTypeKey \<Rightarrow> state \<Rightarrow> val \<Rightarrow> val result" where
  "construct k s t = (case k of KList \<Rightarrow> GraphQLList_new s t | KNonNull \<Rightarrow> GraphQLNonNull_new s t)"

text \<open>
  The invariant of the states a program can reach: a wrapper is built after its inner type,
  over a value that passed the assertion of its constructor; a filled cache slot holds the
  wrapper of its kind over its key. It holds of a heap of named types with an empty cache
  (\<open>wf_state_initial\<close>) and every call of this layer keeps it (\<open>run_stable\<close>).
\<close>

definition below :: "addr \<Rightarrow> val \<Rightarrow> bool" where
  "below a t = (case t of Ref b \<Rightarrow> b < a | _ \<Rightarrow> False)"

definition wf_obj :: "heap \<Rightarrow> addr \<Rightarrow> obj \<Rightarrow> bool" where
  "wf_obj h a ob =
     (case ob of
        ListObj t \<Rightarrow> below a t \<and> isType h t
      | NonNullObj t \<Rightarrow> below a t \<and> isNullableType h t
      | _ \<Rightarrow> True)"

definition wf_heap :: "heap \<Rightarrow> bool" where
  "wf_heap h \<longleftrightarrow> (\<forall>a<length h. wf_obj h a (h ! a))"

definition wf_cache :: "state \<Rightarrow> bool" where
  "wf_cache s \<longleftrightarrow>
     (\<forall>a k. case slot s a k of Ref l \<Rightarrow> obj_at (heap s) l = wrapper k (Ref a) | _ \<Rightarrow> True)"

definition wf_state :: "state \<Rightarrow> bool" where
  "wf_state s \<longleftrightarrow> wf_heap (heap s) \<and> wf_cache s"

text \<open>
  A later state: objects are only added, a filled slot keeps its wrapper, and a slot filled
  since holds an object created since.
\<close>

definition extends :: "state \<Rightarrow> state \<Rightarrow> bool" where
  "extends s s' \<longleftrightarrow>
     (\<exists>e. heap s' = heap s @ e) \<and>
     (\<forall>a k. truthy (slot s a k) \<longrightarrow> slot s' a k = slot s a k) \<and>
     (\<forall>a k l. slot s' a k = Ref l \<longrightarrow> slot s a k = Ref l \<or> length (heap s) \<le> l)"


text \<open>The two markers of a wrap spec and the cache key each stands for.\<close>

definition keyOf :: "char \<Rightarrow> CacheTypeKey option" where
  "keyOf c = (if c = CHR '']'' then Some KList else if c = CHR ''!'' then Some KNonNull else None)"

text \<open>
  What a program does with this layer, in any order: the two constructors in call form and
  in \<^verbatim>\<open>new\<close> form, \<^verbatim>\<open>wrapType\<close>, and the creation of a named type (by the constructors of
  \<^verbatim>\<open>./definition\<close>). A thrown error is caught by the caller; the state stays as the call
  left it.
\<close>

datatype call =
    CallList val
  | CallNonNull val
  | NewList val
  | NewNonNull val
  | CallWrapType val string
  | NewNamed kind string

fun exec :: "state \<Rightarrow> call \<Rightarrow> state" where
  "exec s (CallList t) = snd (GraphQLList s t)"
| "exec s (CallNonNull t) = snd (GraphQLNonNull s t)"
| "exec s (NewList t) = snd (GraphQLList_new s t)"
| "exec s (NewNonNull t) = snd (GraphQLNonNull_new s t)"
| "exec s (CallWrapType t wrapSpec) = snd (wrapType s t wrapSpec)"
| "exec s (NewNamed c n) = snd (alloc s (NamedObj c n))"

fun run :: "state \<Rightarrow> call list \<Rightarrow> state" where
  "run s [] = s"
| "run s (c # cs) = run (exec s c) cs"

text \<open>
  A wrap spec over the two markers in which no \<^verbatim>\<open>!\<close> is applied to a non-null type;
  \<open>nn\<close> says whether the type wrapped so far is non-null.
\<close>

fun legal :: "bool \<Rightarrow> string \<Rightarrow> bool" where
  "legal nn [] = True"
| "legal nn (c # cs) =
     (if c = CHR '']'' then legal False cs
      else if c = CHR ''!'' then \<not> nn \<and> legal True cs
      else False)"

text \<open>A reachable state that is later than \<open>s\<close>.\<close>

definition stable :: "state \<Rightarrow> state \<Rightarrow> bool" where
  "stable s s' \<longleftrightarrow> wf_state s' \<and> extends s s'"

text \<open>
  The shape of a wrapped type: \<open>wraps h t ms x\<close> says that \<open>t\<close> is \<open>x\<close> under the
  layers \<open>ms\<close>, the outermost marker first, each layer being the wrapper object of its
  marker. \<open>render ms r\<close> is the rendering of such a type when \<open>x\<close> renders as \<open>r\<close>.
\<close>

fun wraps :: "heap \<Rightarrow> val \<Rightarrow> string \<Rightarrow> val \<Rightarrow> bool" where
  "wraps h t [] x = (t = x)"
| "wraps h t (c # ms) x =
     (case keyOf c of
        None \<Rightarrow> False
      | Some k \<Rightarrow>
          (case t of
             Ref a \<Rightarrow> obj_at h a = wrapper k (ofType h t) \<and> wraps h (ofType h t) ms x
           | _ \<Rightarrow> False))"

fun render :: "string \<Rightarrow> string \<Rightarrow> string" where
  "render [] r = r"
| "render (c # ms) r = (if c = CHR '']'' then ''['' @ render ms r @ '']'' else render ms r @ ''!'')"

text \<open>
  The six named types of the tests (\<^verbatim>\<open>ObjectType\<close>, \<^verbatim>\<open>InterfaceType\<close>, \<^verbatim>\<open>UnionType\<close>,
  \<^verbatim>\<open>EnumType\<close>, \<^verbatim>\<open>InputObjectType\<close>, \<^verbatim>\<open>ScalarType\<close>) before any wrapper exists, and a
  state with two separately constructed object types of the same name.
\<close>

definition testState :: state where
  "testState =
     \<lparr>heap = [NamedObj Object ''Object'', NamedObj Interface ''Interface'',
              NamedObj Union ''Union'', NamedObj Enum ''Enum'',
              NamedObj InputObject ''InputObject'', NamedObj Scalar ''Scalar''],
      wrapperCache = Map.empty\<rparr>"

definition twoObjects :: state where
  "twoObjects = \<lparr>heap = [NamedObj Object ''Object'', NamedObj Object ''Object''],
                 wrapperCache = Map.empty\<rparr>"

text \<open>
  The state after \<^verbatim>\<open>GraphQLNonNull(ObjectType)\<close> on a heap holding one object type.
\<close>

definition nonNullState :: state where
  "nonNullState = \<lparr>heap = [NamedObj Object ''Object'', NonNullObj (Ref 0)],
                   wrapperCache = [0 \<mapsto> [KNonNull \<mapsto> Ref 1]]\<rparr>"

section \<open>Basic facts\<close>

lemma wrapType_unfold:
  "wrapType s t wrapSpec =
     (if wrapSpec = [] then (Inl ZeroLengthWrapSpec, s) else reduce s t wrapSpec)"
  by (simp add: wrapType_def invariant_def)

lemmas base_preds = isScalarType_def isObjectType_def isInterfaceType_def isUnionType_def
  isEnumType_def isInputObjectType_def isListType_def isNonNullType_def isInstance_def

lemma obj_at_append: "a < length h \<Longrightarrow> obj_at (h @ e) a = obj_at h a"
  by (simp add: obj_at_def nth_append)

lemma obj_at_new: "obj_at (h @ [ob]) (length h) = ob"
  by (simp add: obj_at_def)

lemma obj_at_in_heap: "obj_at h a \<noteq> OtherObj \<Longrightarrow> a < length h"
  by (simp add: obj_at_def split: if_splits)

lemma isType_obj_at: "isType h (Ref a) \<longleftrightarrow> obj_at h a \<noteq> OtherObj"
proof (cases "obj_at h a")
  case (NamedObj c n)
  then show ?thesis by (cases c) (simp_all add: isType_def base_preds)
qed (simp_all add: isType_def base_preds)

lemma isType_absent: "\<not> isType h Undefined" "\<not> isType h Null"
  by (simp_all add: isType_def base_preds)

lemma isType_Ref: "isType h v \<Longrightarrow> \<exists>a. v = Ref a \<and> a < length h"
  by (cases v) (auto simp: isType_absent isType_obj_at dest: obj_at_in_heap)

lemma isNullableType_isType: "isNullableType h v \<Longrightarrow> isType h v"
  by (simp add: isNullableType_def)

lemma accepts_isType: "accepts k h t \<Longrightarrow> isType h t"
  by (cases k) (simp_all add: accepts_def isNullableType_def)

lemma accepts_Ref: "accepts k h t \<Longrightarrow> \<exists>a. t = Ref a \<and> a < length h"
  by (blast dest: accepts_isType isType_Ref)

lemma isType_append: "isType h v \<Longrightarrow> isType (h @ e) v"
proof -
  assume t: "isType h v"
  then obtain a where "v = Ref a" "a < length h" by (blast dest: isType_Ref)
  with t show ?thesis by (simp add: isType_obj_at obj_at_append)
qed

lemma isNonNullType_append: "isType h v \<Longrightarrow> isNonNullType (h @ e) v = isNonNullType h v"
  by (auto dest!: isType_Ref simp: isNonNullType_def obj_at_append)

lemma isListType_append: "isType h v \<Longrightarrow> isListType (h @ e) v = isListType h v"
  by (auto dest!: isType_Ref simp: isListType_def obj_at_append)

lemma isNullableType_append: "isNullableType h v \<Longrightarrow> isNullableType (h @ e) v"
  by (simp add: isNullableType_def isType_append isNonNullType_append)

lemma accepts_append: "accepts k h t \<Longrightarrow> accepts k (h @ e) t"
  by (cases k) (simp_all add: accepts_def isType_append isNullableType_append)

lemma wrapper_not_Other: "wrapper k t \<noteq> OtherObj"
  by (cases k) (simp_all add: wrapper_def)

lemma wrapper_inject: "wrapper k t = wrapper k' t' \<longleftrightarrow> k = k' \<and> t = t'"
  by (cases k; cases k') (simp_all add: wrapper_def)

lemma slot_cached:
  "slot (cached s a k w) a' k' = (if a' = a \<and> k' = k then w else slot s a' k')"
  by (auto simp: slot_def cached_def getSlot_def split: option.splits)

lemma heap_cached: "heap (cached s a k w) = heap s"
  by (simp add: cached_def)

lemma slot_heap_update: "slot (s\<lparr>heap := h\<rparr>) a k = slot s a k"
  by (simp add: slot_def)

lemma lookupOrMake_closed:
  assumes cons: "\<And>s'. heap s' = heap s \<Longrightarrow>
            cons s' (Ref a) = (Inr (Ref (length (heap s))), s'\<lparr>heap := heap s @ [wrapper k (Ref a)]\<rparr>)"
  shows "lookupOrMake s (Ref a) k cons =
     (if truthy (slot s a k) then (Inr (slot s a k), s)
      else (Inr (Ref (length (heap s))),
            cached (s\<lparr>heap := heap s @ [wrapper k (Ref a)]\<rparr>) a k (Ref (length (heap s)))))"
proof (cases "wrapperCache s a")
  case None
  then show ?thesis
    by (simp add: lookupOrMake_def slot_def getSlot_def truthy_def cons cached_def Let_def)
next
  case (Some m)
  then show ?thesis
    by (simp add: lookupOrMake_def slot_def cons cached_def Let_def)
qed

lemma construct_accepts:
  "accepts k (heap s) t \<Longrightarrow>
   construct k s t = (Inr (Ref (length (heap s))), s\<lparr>heap := heap s @ [wrapper k t]\<rparr>)"
  by (cases k)
     (simp_all add: construct_def accepts_def wrapper_def GraphQLList_new_def
        GraphQLNonNull_new_def assertType_def assertNullableType_def alloc_def)

lemma construct_rejects: "\<not> accepts k (heap s) t \<Longrightarrow> construct k s t = (Inl (rejected k t), s)"
  by (cases k)
     (simp_all add: construct_def accepts_def rejected_def GraphQLList_new_def
        GraphQLNonNull_new_def assertType_def assertNullableType_def)

lemma factory_rejects: "\<not> accepts k (heap s) t \<Longrightarrow> factory k s t = (Inl (rejected k t), s)"
  by (cases k)
     (simp_all add: factory_def accepts_def rejected_def GraphQLList_def
        GraphQLNonNull_def assertType_def assertNullableType_def)

lemma factory_lookupOrMake:
  "accepts k (heap s) t \<Longrightarrow> factory k s t = lookupOrMake s t k (construct k)"
proof (cases k)
  case KList
  have "construct KList = GraphQLList_new" by (rule ext, rule ext) (simp add: construct_def)
  moreover assume "accepts k (heap s) t"
  ultimately show ?thesis using KList
    by (simp add: factory_def accepts_def GraphQLList_def assertType_def)
next
  case KNonNull
  have "construct KNonNull = GraphQLNonNull_new" by (rule ext, rule ext) (simp add: construct_def)
  moreover assume "accepts k (heap s) t"
  ultimately show ?thesis using KNonNull
    by (simp add: factory_def accepts_def GraphQLNonNull_def assertNullableType_def)
qed

lemma factory_closed:
  assumes "accepts k (heap s) (Ref a)"
  shows "factory k s (Ref a) =
     (if truthy (slot s a k) then (Inr (slot s a k), s)
      else (Inr (Ref (length (heap s))),
            cached (s\<lparr>heap := heap s @ [wrapper k (Ref a)]\<rparr>) a k (Ref (length (heap s)))))"
  unfolding factory_lookupOrMake [OF assms]
  by (rule lookupOrMake_closed) (simp add: construct_accepts assms)

lemma truthy_Ref: "truthy v \<Longrightarrow> \<exists>l. v = Ref l"
  by (cases v) (simp_all add: truthy_def)

lemma wf_obj_append: "wf_obj h a ob \<Longrightarrow> wf_obj (h @ e) a ob"
  by (cases ob) (simp_all add: wf_obj_def isType_append isNullableType_append)

lemma wf_heap_snoc:
  assumes "wf_heap h" "wf_obj (h @ [ob]) (length h) ob"
  shows "wf_heap (h @ [ob])"
  unfolding wf_heap_def
proof (intro allI impI)
  fix a assume "a < length (h @ [ob])"
  then consider "a < length h" | "a = length h" by fastforce
  then show "wf_obj (h @ [ob]) a ((h @ [ob]) ! a)"
  proof cases
    case 1
    with assms(1) have "wf_obj h a (h ! a)" by (simp add: wf_heap_def)
    with 1 show ?thesis by (simp add: nth_append wf_obj_append)
  next
    case 2
    with assms(2) show ?thesis by simp
  qed
qed

lemma wf_obj_wrapper:
  "accepts k h (Ref a) \<Longrightarrow> wf_obj (h @ e) (length h) (wrapper k (Ref a))"
proof -
  assume acc: "accepts k h (Ref a)"
  then have "a < length h" by (blast dest: accepts_Ref)
  moreover from acc have "accepts k (h @ e) (Ref a)" by (rule accepts_append)
  ultimately show ?thesis
    by (cases k) (simp_all add: wf_obj_def wrapper_def below_def accepts_def)
qed

lemma wf_heap_wrapper:
  "wf_heap h \<Longrightarrow> accepts k h (Ref a) \<Longrightarrow> wf_heap (h @ [wrapper k (Ref a)])"
  by (rule wf_heap_snoc) (simp_all add: wf_obj_wrapper)

lemma wf_cacheD:
  "wf_cache s \<Longrightarrow> slot s a k = Ref l \<Longrightarrow> obj_at (heap s) l = wrapper k (Ref a)"
  unfolding wf_cache_def
  by (drule spec [of _ a], drule spec [of _ k]) simp

lemma wf_cacheI:
  "(\<And>a k l. slot s a k = Ref l \<Longrightarrow> obj_at (heap s) l = wrapper k (Ref a)) \<Longrightarrow> wf_cache s"
  unfolding wf_cache_def by (auto split: val.splits)

lemma wf_cache_in_heap: "wf_cache s \<Longrightarrow> slot s a k = Ref l \<Longrightarrow> l < length (heap s)"
  by (drule (1) wf_cacheD) (rule obj_at_in_heap, simp add: wrapper_not_Other)

lemma extends_refl: "extends s s"
  by (simp add: extends_def)

lemma extends_trans:
  assumes "extends s s'" "extends s' s''"
  shows "extends s s''"
proof -
  from assms obtain e e' where h: "heap s' = heap s @ e" "heap s'' = heap s' @ e'"
    unfolding extends_def by (meson not_le)
  then have 1: "\<exists>e. heap s'' = heap s @ e" by simp
  have 2: "\<forall>a k. truthy (slot s a k) \<longrightarrow> slot s'' a k = slot s a k"
    using assms by (simp add: extends_def)
  have 3: "\<forall>a k l. slot s'' a k = Ref l \<longrightarrow> slot s a k = Ref l \<or> length (heap s) \<le> l"
  proof (intro allI impI)
    fix a k l assume "slot s'' a k = Ref l"
    with assms(2) have "slot s' a k = Ref l \<or> length (heap s') \<le> l" by (simp add: extends_def)
    then show "slot s a k = Ref l \<or> length (heap s) \<le> l"
    proof
      assume "slot s' a k = Ref l"
      with assms(1) show ?thesis by (simp add: extends_def)
    next
      assume "length (heap s') \<le> l"
      with h show ?thesis by simp
    qed
  qed
  from 1 2 3 show ?thesis by (simp add: extends_def)
qed

lemma extends_old_slot:
  "extends s s' \<Longrightarrow> slot s' a k = Ref l \<Longrightarrow> l < length (heap s) \<Longrightarrow> slot s a k = Ref l"
  unfolding extends_def by (meson not_le)

lemma extends_heap: "extends s s' \<Longrightarrow> \<exists>e. heap s' = heap s @ e"
  by (simp add: extends_def)

lemma extends_slot: "extends s s' \<Longrightarrow> slot s a k = Ref l \<Longrightarrow> slot s' a k = Ref l"
  by (simp add: extends_def truthy_def)

lemma extends_accepts: "extends s s' \<Longrightarrow> accepts k (heap s) t \<Longrightarrow> accepts k (heap s') t"
  by (auto dest!: extends_heap simp: accepts_append)

lemma extends_obj_at: "extends s s' \<Longrightarrow> a < length (heap s) \<Longrightarrow> obj_at (heap s') a = obj_at (heap s) a"
  by (auto dest!: extends_heap simp: obj_at_append)

text \<open>Allocation of a wrapper that the constructor accepts.\<close>

lemma wf_state_alloc:
  assumes "wf_state s" "accepts k (heap s) (Ref a)"
  shows "wf_state (s\<lparr>heap := heap s @ [wrapper k (Ref a)]\<rparr>)"
proof -
  let ?s' = "s\<lparr>heap := heap s @ [wrapper k (Ref a)]\<rparr>"
  have "wf_heap (heap ?s')" using assms by (simp add: wf_state_def wf_heap_wrapper)
  moreover have "wf_cache ?s'"
  proof (rule wf_cacheI)
    fix a' k' l assume "slot ?s' a' k' = Ref l"
    then have sl: "slot s a' k' = Ref l" by (simp add: slot_heap_update)
    with assms(1) have "obj_at (heap s) l = wrapper k' (Ref a')" "l < length (heap s)"
      by (simp_all add: wf_state_def wf_cacheD wf_cache_in_heap)
    then show "obj_at (heap ?s') l = wrapper k' (Ref a')" by (simp add: obj_at_append)
  qed
  ultimately show ?thesis by (simp add: wf_state_def)
qed

lemma extends_alloc: "extends s (s\<lparr>heap := heap s @ e\<rparr>)"
  by (simp add: extends_def slot_heap_update)

lemma wf_state_cached:
  assumes "wf_state s" "obj_at (heap s) l = wrapper k (Ref a)"
  shows "wf_state (cached s a k (Ref l))"
proof -
  have "wf_cache (cached s a k (Ref l))"
  proof (rule wf_cacheI)
    fix a' k' l' assume "slot (cached s a k (Ref l)) a' k' = Ref l'"
    then show "obj_at (heap (cached s a k (Ref l))) l' = wrapper k' (Ref a')"
      using assms by (auto simp: slot_cached heap_cached wf_state_def wf_cacheD split: if_splits)
  qed
  with assms(1) show ?thesis by (simp add: wf_state_def heap_cached)
qed

lemma extends_alloc_cached:
  "\<not> truthy (slot s a k) \<Longrightarrow>
   extends s (cached (s\<lparr>heap := heap s @ e\<rparr>) a k (Ref (length (heap s))))"
  by (auto simp: extends_def heap_cached slot_cached slot_heap_update)

lemma factory_spec:
  assumes wf: "wf_state s" and acc: "accepts k (heap s) (Ref a)"
  shows "\<exists>l s'. factory k s (Ref a) = (Inr (Ref l), s') \<and> wf_state s' \<and> extends s s' \<and>
           obj_at (heap s') l = wrapper k (Ref a) \<and> slot s' a k = Ref l"
proof (cases "truthy (slot s a k)")
  case True
  then obtain l where l: "slot s a k = Ref l" by (blast dest: truthy_Ref)
  with wf have "obj_at (heap s) l = wrapper k (Ref a)" by (simp add: wf_state_def wf_cacheD)
  with True l wf show ?thesis by (simp add: factory_closed [OF acc] extends_refl)
next
  case False
  let ?n = "length (heap s)"
  let ?s1 = "s\<lparr>heap := heap s @ [wrapper k (Ref a)]\<rparr>"
  let ?s' = "cached ?s1 a k (Ref ?n)"
  have ob: "obj_at (heap ?s1) ?n = wrapper k (Ref a)" by (simp add: obj_at_new)
  have "wf_state ?s1" using wf acc by (rule wf_state_alloc)
  then have "wf_state ?s'" using ob by (rule wf_state_cached)
  moreover have "extends s ?s'" using False by (rule extends_alloc_cached)
  ultimately show ?thesis using False ob
    by (simp add: factory_closed [OF acc] heap_cached slot_cached)
qed

lemma factory_again:
  assumes "factory k s (Ref a) = (Inr (Ref l), s')" "accepts k (heap s) (Ref a)"
    "slot s' a k = Ref l" "extends s s'" "extends s' s''"
  shows "factory k s'' (Ref a) = (Inr (Ref l), s'')"
proof -
  have "accepts k (heap s'') (Ref a)" using assms by (blast intro: extends_accepts)
  moreover have "slot s'' a k = Ref l" using assms by (blast intro: extends_slot)
  ultimately show ?thesis by (simp add: factory_closed truthy_def)
qed

lemma construct_spec:
  assumes wf: "wf_state s" and acc: "accepts k (heap s) (Ref a)"
  shows "\<exists>s'. construct k s (Ref a) = (Inr (Ref (length (heap s))), s') \<and> wf_state s' \<and>
           extends s s' \<and> obj_at (heap s') (length (heap s)) = wrapper k (Ref a) \<and>
           wrapperCache s' = wrapperCache s"
  using wf_state_alloc [OF wf acc]
  by (simp add: construct_accepts [OF acc] extends_alloc obj_at_new)

lemma isWrappingType_cases:
  "isWrappingType h v \<longleftrightarrow> (\<exists>a t. v = Ref a \<and> (obj_at h a = ListObj t \<or> obj_at h a = NonNullObj t))"
  by (cases v) (auto simp: isWrappingType_def isListType_def isNonNullType_def split: obj.splits)

lemma isWrappingType_wrapper: "obj_at h a = wrapper k t \<Longrightarrow> isWrappingType h (Ref a)"
  by (cases k) (auto simp: isWrappingType_cases wrapper_def)

lemma ofType_wrapper: "obj_at h a = wrapper k t \<Longrightarrow> ofType h (Ref a) = t"
  by (cases k) (simp_all add: ofType_def wrapper_def)

lemma isWrappingType_isType: "isWrappingType h v \<Longrightarrow> isType h v"
  by (auto simp: isWrappingType_def isType_def)

lemma isWrappingType_append: "isType h v \<Longrightarrow> isWrappingType (h @ e) v = isWrappingType h v"
  by (simp add: isWrappingType_def isListType_append isNonNullType_append)

lemma ofType_append: "isType h v \<Longrightarrow> ofType (h @ e) v = ofType h v"
  by (auto dest!: isType_Ref simp: ofType_def obj_at_append)

lemma wf_heap_ofType:
  assumes "wf_heap h" "isWrappingType h (Ref a)"
  shows "below a (ofType h (Ref a)) \<and> isType h (ofType h (Ref a))"
proof -
  from assms(2) obtain t where t: "obj_at h a = ListObj t \<or> obj_at h a = NonNullObj t"
    by (auto simp: isWrappingType_cases)
  then have a: "a < length h" by (auto intro: obj_at_in_heap)
  with assms(1) have "wf_obj h a (obj_at h a)" by (simp add: wf_heap_def obj_at_def)
  with t show ?thesis by (auto simp: wf_obj_def ofType_def isNullableType_def)
qed

lemma wf_type_induct [consumes 2, case_names base wrap]:
  assumes wf: "wf_heap h" and ty: "isType h v"
    and base: "\<And>v. isType h v \<Longrightarrow> \<not> isWrappingType h v \<Longrightarrow> P v"
    and wrap: "\<And>v. isWrappingType h v \<Longrightarrow> isType h (ofType h v) \<Longrightarrow> P (ofType h v) \<Longrightarrow> P v"
  shows "P v"
proof -
  from ty obtain a where v: "v = Ref a" by (blast dest: isType_Ref)
  have "isType h (Ref a) \<Longrightarrow> P (Ref a)"
  proof (induction a rule: less_induct)
    case (less a)
    show ?case
    proof (cases "isWrappingType h (Ref a)")
      case False
      with less.prems show ?thesis by (rule base)
    next
      case True
      with wf have inner: "below a (ofType h (Ref a))" "isType h (ofType h (Ref a))"
        by (simp_all add: wf_heap_ofType)
      then obtain b where b: "ofType h (Ref a) = Ref b" "b < a"
        by (auto simp: below_def split: val.splits)
      with inner less.IH have "P (ofType h (Ref a))" by simp
      with True inner(2) show ?thesis by (rule wrap)
    qed
  qed
  with ty v show ?thesis by simp
qed

subsection \<open>unwrapLoop\<close>

lemma unwrapLoop_wrap: "isWrappingType h v \<Longrightarrow> unwrapLoop h v = unwrapLoop h (ofType h v)"
  by (subst unwrapLoop.simps) simp

lemma unwrapLoop_base: "\<not> isWrappingType h v \<Longrightarrow> unwrapLoop h v = Some v"
  by (subst unwrapLoop.simps) simp

lemma unwrapLoop_append:
  assumes "wf_heap h" "isType h v"
  shows "unwrapLoop (h @ e) v = unwrapLoop h v"
  using assms
proof (induction rule: wf_type_induct)
  case (base v)
  then show ?case by (simp add: unwrapLoop_base isWrappingType_append)
next
  case (wrap v)
  then have "isType h v" by (simp add: isWrappingType_isType)
  with wrap show ?case by (simp add: unwrapLoop_wrap isWrappingType_append ofType_append)
qed

lemma unwrapLoop_total:
  assumes "wf_heap h" "isType h v"
  shows "\<exists>r. unwrapLoop h v = Some r \<and> isNamedType h r"
  using assms
proof (induction rule: wf_type_induct)
  case (base v)
  then show ?case by (simp add: unwrapLoop_base isNamedType_def isWrappingType_def)
next
  case (wrap v)
  then show ?case by (simp add: unwrapLoop_wrap)
qed

subsection \<open>toString\<close>

lemma toString_list:
  "obj_at h a = ListObj t \<Longrightarrow>
   toString h (Ref a) = Option.bind (toString h t) (\<lambda>r. Some (''['' @ r @ '']''))"
  by (subst toString.simps) simp

lemma toString_nonNull:
  "obj_at h a = NonNullObj t \<Longrightarrow>
   toString h (Ref a) = Option.bind (toString h t) (\<lambda>r. Some (r @ ''!''))"
  by (subst toString.simps) simp

lemma toString_base:
  "\<not> isWrappingType h (Ref a) \<Longrightarrow> toString h (Ref a) = Some (nameOf (obj_at h a))"
  by (subst toString.simps) (auto simp: isWrappingType_cases split: obj.splits)

lemma toString_append:
  assumes "wf_heap h" "isType h v"
  shows "toString (h @ e) v = toString h v"
  using assms
proof (induction rule: wf_type_induct)
  case (base v)
  then obtain a where "v = Ref a" "a < length h" by (blast dest: isType_Ref)
  with base show ?case
    using isWrappingType_append [of h v e] by (simp add: toString_base obj_at_append)
next
  case (wrap v)
  then obtain a t where v: "v = Ref a" and ob: "obj_at h a = ListObj t \<or> obj_at h a = NonNullObj t"
    by (auto simp: isWrappingType_cases)
  then have a: "a < length h" by (auto intro: obj_at_in_heap)
  from v ob have "ofType h v = t" by (auto simp: ofType_def)
  with wrap have "toString (h @ e) t = toString h t" by simp
  with v ob a show ?case by (auto simp: toString_list toString_nonNull obj_at_append)
qed

lemma toString_total:
  assumes "wf_heap h" "isType h v"
  shows "\<exists>r. toString h v = Some r"
  using assms
proof (induction rule: wf_type_induct)
  case (base v)
  then obtain a where "v = Ref a" by (blast dest: isType_Ref)
  with base show ?case by (simp add: toString_base)
next
  case (wrap v)
  then obtain a t where v: "v = Ref a" and ob: "obj_at h a = ListObj t \<or> obj_at h a = NonNullObj t"
    by (auto simp: isWrappingType_cases)
  from v ob have "ofType h v = t" by (auto simp: ofType_def)
  with wrap obtain r where "toString h t = Some r" by auto
  with v ob show ?case by (auto simp: toString_list toString_nonNull)
qed

subsection \<open>isInputType, isOutputType\<close>

lemma isInputType_wrap: "isWrappingType h v \<Longrightarrow> isInputType h v = isInputType h (ofType h v)"
  by (subst isInputType.simps)
     (auto simp: isWrappingType_cases isScalarType_def isEnumType_def isInputObjectType_def
        isInstance_def)

lemma isInputType_base:
  "\<not> isWrappingType h v \<Longrightarrow>
   isInputType h v = Some (isScalarType h v \<or> isEnumType h v \<or> isInputObjectType h v)"
  by (subst isInputType.simps) simp

lemma isOutputType_wrap: "isWrappingType h v \<Longrightarrow> isOutputType h v = isOutputType h (ofType h v)"
  by (subst isOutputType.simps)
     (auto simp: isWrappingType_cases isScalarType_def isEnumType_def isObjectType_def
        isInterfaceType_def isUnionType_def isInstance_def)

lemma isOutputType_base:
  "\<not> isWrappingType h v \<Longrightarrow>
   isOutputType h v = Some (isScalarType h v \<or> isObjectType h v \<or> isInterfaceType h v \<or>
     isUnionType h v \<or> isEnumType h v)"
  by (subst isOutputType.simps) simp

lemma isInputType_total:
  assumes "wf_heap h"
  shows "\<exists>b. isInputType h v = Some b"
proof (cases "isType h v")
  case True
  with assms show ?thesis
    by (induction rule: wf_type_induct) (simp_all add: isInputType_base isInputType_wrap)
next
  case False
  then have "\<not> isWrappingType h v" by (blast dest: isWrappingType_isType)
  then show ?thesis by (simp add: isInputType_base)
qed

lemma isOutputType_total:
  assumes "wf_heap h"
  shows "\<exists>b. isOutputType h v = Some b"
proof (cases "isType h v")
  case True
  with assms show ?thesis
    by (induction rule: wf_type_induct) (simp_all add: isOutputType_base isOutputType_wrap)
next
  case False
  then have "\<not> isWrappingType h v" by (blast dest: isWrappingType_isType)
  then show ?thesis by (simp add: isOutputType_base)
qed

lemma stable_refl: "wf_state s \<Longrightarrow> stable s s"
  by (simp add: stable_def extends_refl)

lemma stable_trans: "stable s s' \<Longrightarrow> stable s' s'' \<Longrightarrow> stable s s''"
  by (auto simp: stable_def intro: extends_trans)

lemma factory_stable:
  assumes "wf_state s"
  shows "stable s (snd (factory k s t))"
proof (cases "accepts k (heap s) t")
  case True
  then obtain a where "t = Ref a" by (blast dest: accepts_Ref)
  with True factory_spec [OF assms, of k a] show ?thesis by (auto simp: stable_def)
next
  case False
  with assms show ?thesis by (simp add: factory_rejects stable_refl)
qed

lemma construct_stable:
  assumes "wf_state s"
  shows "stable s (snd (construct k s t))"
proof (cases "accepts k (heap s) t")
  case True
  then obtain a where "t = Ref a" by (blast dest: accepts_Ref)
  with True construct_spec [OF assms, of k a] show ?thesis by (auto simp: stable_def)
next
  case False
  with assms show ?thesis by (simp add: construct_rejects stable_refl)
qed

lemma wrapStep_keyOf:
  "wrapStep s t c =
     (case keyOf c of Some k \<Rightarrow> factory k s t | None \<Rightarrow> (Inl (InvalidWrapSpecChar c), s))"
  by (simp add: wrapStep_def keyOf_def factory_def)

lemma wrapStep_stable: "wf_state s \<Longrightarrow> stable s (snd (wrapStep s t c))"
  by (cases "keyOf c") (simp_all add: wrapStep_keyOf stable_refl factory_stable)

lemma reduce_stable: "wf_state s \<Longrightarrow> stable s (snd (reduce s t cs))"
proof (induction cs arbitrary: s t)
  case Nil
  then show ?case by (simp add: stable_refl)
next
  case (Cons c cs)
  obtain r s1 where step: "wrapStep s t c = (r, s1)" by (cases "wrapStep s t c")
  with Cons.prems wrapStep_stable [of s t c] have s1: "stable s s1" by simp
  show ?case
  proof (cases r)
    case (Inl e)
    with step s1 show ?thesis by simp
  next
    case (Inr t')
    from s1 have "wf_state s1" by (simp add: stable_def)
    then have "stable s1 (snd (reduce s1 t' cs))" by (rule Cons.IH)
    with s1 step Inr show ?thesis by (auto intro: stable_trans)
  qed
qed

lemma wrapType_stable: "wf_state s \<Longrightarrow> stable s (snd (wrapType s t cs))"
  by (simp add: wrapType_unfold stable_refl reduce_stable)

lemma alloc_named_stable:
  assumes "wf_state s"
  shows "stable s (snd (alloc s (NamedObj c n)))"
proof -
  let ?s' = "s\<lparr>heap := heap s @ [NamedObj c n]\<rparr>"
  have "wf_heap (heap ?s')" using assms
    by (simp add: wf_state_def wf_heap_snoc wf_obj_def)
  moreover have "wf_cache ?s'"
  proof (rule wf_cacheI)
    fix a' k' l assume "slot ?s' a' k' = Ref l"
    then have sl: "slot s a' k' = Ref l" by (simp add: slot_heap_update)
    with assms have "obj_at (heap s) l = wrapper k' (Ref a')" "l < length (heap s)"
      by (simp_all add: wf_state_def wf_cacheD wf_cache_in_heap)
    then show "obj_at (heap ?s') l = wrapper k' (Ref a')" by (simp add: obj_at_append)
  qed
  ultimately show ?thesis by (simp add: stable_def wf_state_def alloc_def extends_alloc)
qed

lemma exec_stable: "wf_state s \<Longrightarrow> stable s (exec s c)"
proof (cases c)
  case (CallList t)
  assume "wf_state s"
  with factory_stable [of s KList t] CallList show ?thesis by (simp add: factory_def)
next
  case (CallNonNull t)
  assume "wf_state s"
  with factory_stable [of s KNonNull t] CallNonNull show ?thesis by (simp add: factory_def)
next
  case (NewList t)
  assume "wf_state s"
  with construct_stable [of s KList t] NewList show ?thesis by (simp add: construct_def)
next
  case (NewNonNull t)
  assume "wf_state s"
  with construct_stable [of s KNonNull t] NewNonNull show ?thesis by (simp add: construct_def)
next
  case (CallWrapType t cs)
  assume "wf_state s"
  with CallWrapType show ?thesis by (simp add: wrapType_stable)
next
  case (NewNamed c n)
  assume "wf_state s"
  with NewNamed show ?thesis by (simp add: alloc_named_stable)
qed

lemma run_stable: "wf_state s \<Longrightarrow> stable s (run s cs)"
proof (induction cs arbitrary: s)
  case Nil
  then show ?case by (simp add: stable_refl)
next
  case (Cons c cs)
  then have 1: "stable s (exec s c)" by (simp add: exec_stable)
  then have "wf_state (exec s c)" by (simp add: stable_def)
  then have "stable (exec s c) (run (exec s c) cs)" by (rule Cons.IH)
  with 1 show ?case by (auto intro: stable_trans)
qed

subsection \<open>The fold\<close>

lemma reduce_snoc:
  "reduce s t (cs @ [c]) =
     (case reduce s t cs of (Inl e, s') \<Rightarrow> (Inl e, s') | (Inr t', s') \<Rightarrow> wrapStep s' t' c)"
proof (induction cs arbitrary: s t)
  case Nil
  show ?case by (simp split: prod.splits sum.splits)
next
  case (Cons d cs)
  show ?case by (simp add: Cons.IH split: prod.splits sum.splits)
qed

lemma reduce_foldl:
  "reduce s t cs =
     foldl (\<lambda>acc c. case acc of (Inl e, s') \<Rightarrow> (Inl e, s') | (Inr t', s') \<Rightarrow> wrapStep s' t' c)
       (Inr t, s) cs"
  by (induction cs rule: rev_induct) (simp_all add: reduce_snoc)

lemma reduce_invalid:
  "c \<in> set cs \<Longrightarrow> keyOf c = None \<Longrightarrow> \<exists>e s'. reduce s t cs = (Inl e, s')"
proof (induction cs arbitrary: s t)
  case Nil
  then show ?case by simp
next
  case (Cons d cs)
  obtain r s1 where step: "wrapStep s t d = (r, s1)" by (cases "wrapStep s t d")
  show ?case
  proof (cases r)
    case (Inl e)
    with step show ?thesis by simp
  next
    case (Inr t')
    with step have "keyOf d \<noteq> None" by (auto simp: wrapStep_keyOf split: option.splits)
    with Cons.prems have "c \<in> set cs" by auto
    with Cons.IH Cons.prems(2) obtain e s' where "reduce s1 t' cs = (Inl e, s')" by blast
    with step Inr show ?thesis by simp
  qed
qed

lemma wraps_Cons:
  "wraps h t (c # ms) x \<longleftrightarrow>
     (\<exists>k a t'. keyOf c = Some k \<and> t = Ref a \<and> obj_at h a = wrapper k t' \<and> wraps h t' ms x)"
  by (auto simp: ofType_wrapper split: option.splits val.splits)

declare wraps.simps(2) [simp del]

lemma wraps_append: "wraps h t ms x \<Longrightarrow> wraps (h @ e) t ms x"
proof (induction ms arbitrary: t)
  case Nil
  then show ?case by simp
next
  case (Cons c ms)
  then obtain k a t' where *: "keyOf c = Some k" "t = Ref a" "obj_at h a = wrapper k t'"
    "wraps h t' ms x" by (auto simp: wraps_Cons)
  then have "a < length h" by (simp add: obj_at_in_heap wrapper_not_Other)
  with * have "obj_at (h @ e) a = wrapper k t'" by (simp add: obj_at_append)
  moreover from * Cons.IH have "wraps (h @ e) t' ms x" by simp
  ultimately show ?case using * unfolding wraps_Cons by blast
qed

lemma wraps_extends: "extends s s' \<Longrightarrow> wraps (heap s) t ms x \<Longrightarrow> wraps (heap s') t ms x"
  by (auto dest!: extends_heap simp: wraps_append)

lemma wraps_unwrapLoop:
  "wraps h t ms x \<Longrightarrow> \<not> isWrappingType h x \<Longrightarrow> unwrapLoop h t = Some x"
proof (induction ms arbitrary: t)
  case Nil
  then show ?case by (simp add: unwrapLoop_base)
next
  case (Cons c ms)
  then obtain k a t' where *: "t = Ref a" "obj_at h a = wrapper k t'" "wraps h t' ms x"
    by (auto simp: wraps_Cons)
  with Cons have "unwrapLoop h t' = Some x" by simp
  with * show ?case by (simp add: unwrapLoop_wrap isWrappingType_wrapper ofType_wrapper)
qed

lemma wraps_toString:
  "wraps h t ms x \<Longrightarrow> toString h x = Some r \<Longrightarrow> toString h t = Some (render ms r)"
proof (induction ms arbitrary: t)
  case Nil
  then show ?case by simp
next
  case (Cons c ms)
  then obtain k a t' where *: "keyOf c = Some k" "t = Ref a" "obj_at h a = wrapper k t'"
    "wraps h t' ms x" by (auto simp: wraps_Cons)
  with Cons have "toString h t' = Some (render ms r)" by simp
  with * show ?case
    by (cases k) (auto simp: toString_list toString_nonNull wrapper_def keyOf_def split: if_splits)
qed

lemma wraps_isInputType: "wraps h t ms x \<Longrightarrow> isInputType h t = isInputType h x"
proof (induction ms arbitrary: t)
  case Nil
  then show ?case by simp
next
  case (Cons c ms)
  then obtain k a t' where *: "t = Ref a" "obj_at h a = wrapper k t'" "wraps h t' ms x"
    by (auto simp: wraps_Cons)
  with Cons have "isInputType h t' = isInputType h x" by simp
  with * show ?case by (simp add: isInputType_wrap isWrappingType_wrapper ofType_wrapper)
qed

lemma wraps_isOutputType: "wraps h t ms x \<Longrightarrow> isOutputType h t = isOutputType h x"
proof (induction ms arbitrary: t)
  case Nil
  then show ?case by simp
next
  case (Cons c ms)
  then obtain k a t' where *: "t = Ref a" "obj_at h a = wrapper k t'" "wraps h t' ms x"
    by (auto simp: wraps_Cons)
  with Cons have "isOutputType h t' = isOutputType h x" by simp
  with * show ?case by (simp add: isOutputType_wrap isWrappingType_wrapper ofType_wrapper)
qed

lemma isNonNullType_wrapper: "obj_at h a = wrapper k t \<Longrightarrow> isNonNullType h (Ref a) \<longleftrightarrow> k = KNonNull"
  by (cases k) (simp_all add: isNonNullType_def wrapper_def)

lemma isListType_wrapper: "obj_at h a = wrapper k t \<Longrightarrow> isListType h (Ref a) \<longleftrightarrow> k = KList"
  by (cases k) (simp_all add: isListType_def wrapper_def)

lemma isType_wrapper: "obj_at h a = wrapper k t \<Longrightarrow> isType h (Ref a)"
  by (simp add: isType_obj_at wrapper_not_Other)

lemma wrapStep_success:
  assumes "wf_state s" "wrapStep s t c = (Inr t', s')"
  shows "\<exists>k a l. keyOf c = Some k \<and> t = Ref a \<and> t' = Ref l \<and> accepts k (heap s) t \<and>
           stable s s' \<and> obj_at (heap s') l = wrapper k t \<and> slot s' a k = Ref l"
proof -
  from assms(2) obtain k where k: "keyOf c = Some k" "factory k s t = (Inr t', s')"
    by (auto simp: wrapStep_keyOf split: option.splits)
  then have acc: "accepts k (heap s) t" using factory_rejects [of k s t] by auto
  then obtain a where a: "t = Ref a" by (blast dest: accepts_Ref)
  with factory_spec [OF assms(1), of k a] acc k a show ?thesis by (auto simp: stable_def)
qed

lemma reduce_wraps:
  assumes "wf_state s" "reduce s t cs = (Inr t', s')"
  shows "stable s s' \<and> wraps (heap s') t' (rev cs) t"
  using assms
proof (induction cs arbitrary: t' s' rule: rev_induct)
  case Nil
  then show ?case by (simp add: stable_refl)
next
  case (snoc c cs)
  from snoc.prems(2) obtain t1 s1 where r: "reduce s t cs = (Inr t1, s1)"
    and step: "wrapStep s1 t1 c = (Inr t', s')"
    by (auto simp: reduce_snoc split: prod.splits sum.splits)
  from snoc.IH [OF snoc.prems(1) r] have s1: "stable s s1" and w: "wraps (heap s1) t1 (rev cs) t"
    by simp_all
  from s1 have "wf_state s1" by (simp add: stable_def)
  from wrapStep_success [OF this step] obtain k l where
    *: "keyOf c = Some k" "t' = Ref l" "stable s1 s'" "obj_at (heap s') l = wrapper k t1"
    by blast
  from * w have "wraps (heap s') t1 (rev cs) t" by (auto simp: stable_def intro: wraps_extends)
  with * have "wraps (heap s') t' (c # rev cs) t" unfolding wraps_Cons by blast
  with s1 * show ?case by (auto intro: stable_trans)
qed

lemma reduce_legal:
  assumes "wf_state s" "isType (heap s) t" "legal (isNonNullType (heap s) t) cs"
  shows "\<exists>t' s'. reduce s t cs = (Inr t', s')"
  using assms
proof (induction cs arbitrary: s t)
  case Nil
  then show ?case by simp
next
  case (Cons c cs)
  from Cons.prems(3) obtain k where k: "keyOf c = Some k"
    by (auto simp: keyOf_def split: if_splits)
  from Cons.prems(2) obtain a where a: "t = Ref a" by (blast dest: isType_Ref)
  from Cons.prems k have acc: "accepts k (heap s) t"
    by (cases k) (auto simp: keyOf_def accepts_def isNullableType_def split: if_splits)
  with factory_spec [OF Cons.prems(1), of k a] a obtain l s1 where
    f: "factory k s t = (Inr (Ref l), s1)" "wf_state s1" "obj_at (heap s1) l = wrapper k t"
    by auto
  from f(3) have ty: "isType (heap s1) (Ref l)" by (rule isType_wrapper)
  from Cons.prems(3) k f(3) have "legal (isNonNullType (heap s1) (Ref l)) cs"
    by (cases k) (auto simp: keyOf_def isNonNullType_wrapper split: if_splits)
  from Cons.IH [OF f(2) ty this] obtain t' s' where "reduce s1 (Ref l) cs = (Inr t', s')"
    by blast
  with f(1) k show ?case by (simp add: wrapStep_keyOf)
qed

lemma wf_state_initial:
  assumes "\<And>t. ListObj t \<notin> set h" "\<And>t. NonNullObj t \<notin> set h"
  shows "wf_state \<lparr>heap = h, wrapperCache = Map.empty\<rparr>"
proof -
  have "wf_obj h a (h ! a)" if "a < length h" for a
  proof -
    from that have "h ! a \<in> set h" by simp
    with assms show ?thesis by (cases "h ! a") (auto simp: wf_obj_def)
  qed
  then show ?thesis by (simp add: wf_state_def wf_heap_def wf_cache_def slot_def)
qed

lemma wf_testState: "wf_state testState"
  by (simp add: wf_state_def wf_heap_def wf_cache_def slot_def testState_def wf_obj_def
      less_Suc_eq nth_Cons')

lemma testState_types:
  "isObjectType (heap testState) (Ref 0)" "isInputObjectType (heap testState) (Ref 4)"
  "isScalarType (heap testState) (Ref 5)"
  by (simp_all add: testState_def base_preds obj_at_def)

lemma wf_twoObjects: "wf_state twoObjects"
  by (simp add: wf_state_def wf_heap_def wf_cache_def slot_def twoObjects_def wf_obj_def
      less_Suc_eq nth_Cons')

lemma twoObjects_types:
  "isType (heap twoObjects) (Ref 0)" "isType (heap twoObjects) (Ref (Suc 0))"
  "isNullableType (heap twoObjects) (Ref 0)" "isNullableType (heap twoObjects) (Ref (Suc 0))"
  by (simp_all add: twoObjects_def isNullableType_def isType_def base_preds obj_at_def)

lemma stable_extends: "stable s s' \<Longrightarrow> extends s s'"
  by (simp add: stable_def)

lemma stable_wf: "stable s s' \<Longrightarrow> wf_state s'"
  by (simp add: stable_def)

lemma factory_memo:
  assumes "wf_state s" "accepts k (heap s) x"
  shows "\<exists>w s1. factory k s x = (Inr w, s1) \<and>
           (\<forall>cs. factory k (run s1 cs) x = (Inr w, run s1 cs))"
proof -
  from assms(2) obtain a where a: "x = Ref a" by (blast dest: accepts_Ref)
  with factory_spec [OF assms(1), of k a] assms(2) obtain l s1 where
    f: "factory k s (Ref a) = (Inr (Ref l), s1)" "wf_state s1" "extends s s1"
       "slot s1 a k = Ref l" by auto
  have "factory k (run s1 cs) (Ref a) = (Inr (Ref l), run s1 cs)" for cs
  proof -
    from f(2) have "extends s1 (run s1 cs)" by (simp add: run_stable stable_extends)
    with f assms(2) a show ?thesis by (auto intro: factory_again)
  qed
  with f(1) a show ?thesis by auto
qed

lemma factory_distinct:
  assumes wf: "wf_state s" and x: "accepts k (heap s) x" and y: "accepts k' (heap s) y"
    and ne: "x \<noteq> y \<or> k \<noteq> k'"
  shows "\<exists>w s1 w' s2. factory k s x = (Inr w, s1) \<and> factory k' s1 y = (Inr w', s2) \<and> w \<noteq> w'"
proof -
  from x obtain a where a: "x = Ref a" by (blast dest: accepts_Ref)
  from y obtain b where b: "y = Ref b" by (blast dest: accepts_Ref)
  from factory_spec [OF wf, of k a] x a obtain l s1 where
    f: "factory k s x = (Inr (Ref l), s1)" "wf_state s1" "extends s s1"
       "obj_at (heap s1) l = wrapper k x" by auto
  from f(3) y have "accepts k' (heap s1) y" by (rule extends_accepts)
  with factory_spec [OF f(2), of k' b] b obtain l' s2 where
    g: "factory k' s1 y = (Inr (Ref l'), s2)" "extends s1 s2"
       "obj_at (heap s2) l' = wrapper k' y" by auto
  from f(4) have "l < length (heap s1)" by (simp add: obj_at_in_heap wrapper_not_Other)
  with g(2) f(4) have "obj_at (heap s2) l = wrapper k x" by (simp add: extends_obj_at)
  with g(3) ne have "l \<noteq> l'" by (auto simp: wrapper_inject)
  with f(1) g(1) show ?thesis by auto
qed

lemma factory_List: "factory KList = GraphQLList"
  by (rule ext, rule ext) (simp add: factory_def)

lemma factory_NonNull: "factory KNonNull = GraphQLNonNull"
  by (rule ext, rule ext) (simp add: factory_def)

lemma construct_List: "construct KList = GraphQLList_new"
  by (rule ext, rule ext) (simp add: construct_def)

lemma construct_NonNull: "construct KNonNull = GraphQLNonNull_new"
  by (rule ext, rule ext) (simp add: construct_def)

lemma accepts_List: "accepts KList h t = isType h t"
  by (simp add: accepts_def)

lemma accepts_NonNull: "accepts KNonNull h t = isNullableType h t"
  by (simp add: accepts_def)

lemma wrapStep_markers:
  "wrapStep s t CHR '']'' = GraphQLList s t" "wrapStep s t CHR ''!'' = GraphQLNonNull s t"
  by (simp_all add: wrapStep_def)

lemma reduce_two:
  "reduce s x [c1, c2] = (Inr t, s2) \<Longrightarrow>
   \<exists>n s1. wrapStep s x c1 = (Inr n, s1) \<and> wrapStep s1 n c2 = (Inr t, s2)"
  by (auto split: prod.splits sum.splits)

lemma isType_extends: "extends s s' \<Longrightarrow> isType (heap s) v \<Longrightarrow> isType (heap s') v"
  by (auto dest!: extends_heap simp: isType_append)

lemma isWrappingType_extends:
  "extends s s' \<Longrightarrow> isType (heap s) v \<Longrightarrow> isWrappingType (heap s') v = isWrappingType (heap s) v"
  by (auto dest!: extends_heap simp: isWrappingType_append)

lemma isNonNullType_extends:
  "extends s s' \<Longrightarrow> isType (heap s) v \<Longrightarrow> isNonNullType (heap s') v = isNonNullType (heap s) v"
  by (auto dest!: extends_heap simp: isNonNullType_append)

lemma toString_extends:
  "extends s s' \<Longrightarrow> wf_state s \<Longrightarrow> isType (heap s) v \<Longrightarrow>
   toString (heap s') v = toString (heap s) v"
  by (auto dest!: extends_heap simp: toString_append wf_state_def)

lemma isInstance_extends:
  "extends s s' \<Longrightarrow> isInstance c (heap s) v \<Longrightarrow> isInstance c (heap s') v"
proof -
  assume e: "extends s s'" and i: "isInstance c (heap s) v"
  then obtain a where a: "v = Ref a" "obj_at (heap s) a \<noteq> OtherObj"
    by (auto simp: isInstance_def split: val.splits obj.splits)
  then have "a < length (heap s)" by (simp add: obj_at_in_heap)
  with e have "obj_at (heap s') a = obj_at (heap s) a" by (rule extends_obj_at)
  with i a show ?thesis by (simp add: isInstance_def)
qed

lemma isInstance_isType: "isInstance c h v \<Longrightarrow> isType h v"
  by (cases c) (auto simp: isType_def base_preds)

lemma isInstance_not_wrapping: "isInstance c h v \<Longrightarrow> \<not> isWrappingType h v"
  by (auto simp: isInstance_def isWrappingType_cases split: val.splits obj.splits)

lemma isNamedType_not_wrapping: "isNamedType h v \<Longrightarrow> \<not> isWrappingType h v"
  by (simp add: isNamedType_def isWrappingType_def)

lemma wraps_not_absent: "wraps h t ms x \<Longrightarrow> \<not> absent x \<Longrightarrow> \<not> absent t"
  by (cases ms) (auto simp: wraps_Cons absent_def)

lemma isType_not_absent: "isType h v \<Longrightarrow> \<not> absent v"
  by (auto dest: isType_Ref simp: absent_def)

text \<open>What a successful \<^verbatim>\<open>wrapType\<close> returns, for a base type that is not a wrapper.\<close>

lemma wrapType_result:
  assumes wf: "wf_state s" and ty: "isType (heap s) x" and nw: "\<not> isWrappingType (heap s) x"
    and r: "wrapType s x wrapSpec = (Inr t, s')"
  shows "stable s s' \<and> wraps (heap s') t (rev wrapSpec) x \<and> getNamedType (heap s') t = Some x"
proof -
  from r have red: "reduce s x wrapSpec = (Inr t, s')"
    by (auto simp: wrapType_unfold split: if_splits)
  from reduce_wraps [OF wf red] have st: "stable s s'" and w: "wraps (heap s') t (rev wrapSpec) x"
    by simp_all
  from st have "extends s s'" by (rule stable_extends)
  from isWrappingType_extends [OF this ty] nw have "\<not> isWrappingType (heap s') x" by simp
  with w have "unwrapLoop (heap s') t = Some x" by (rule wraps_unwrapLoop)
  moreover from ty have "\<not> absent x" by (rule isType_not_absent)
  with w have "\<not> absent t" by (rule wraps_not_absent)
  ultimately show ?thesis using st w by (simp add: getNamedType_def)
qed

lemma wrapType_legal:
  assumes "wf_state s" "isType (heap s) x" "legal (isNonNullType (heap s) x) wrapSpec"
    "wrapSpec \<noteq> []"
  shows "\<exists>t s'. wrapType s x wrapSpec = (Inr t, s')"
  using reduce_legal [OF assms(1-3)] assms(4) by (simp add: wrapType_unfold)

lemma isInstance_nullable: "isInstance c h v \<Longrightarrow> isNullableType h v"
  by (auto simp: isNullableType_def isInstance_isType isNonNullType_def isInstance_def
      split: val.splits obj.splits)

lemma wraps_extends_stable: "stable s s' \<Longrightarrow> wraps (heap s) t ms x \<Longrightarrow> wraps (heap s') t ms x"
  by (blast intro: wraps_extends stable_extends)

lemma toString_stable:
  "stable s s' \<Longrightarrow> wf_state s \<Longrightarrow> isType (heap s) v \<Longrightarrow>
   toString (heap s') v = toString (heap s) v"
  by (rule toString_extends [OF stable_extends])

text \<open>Two markers applied to a type that is not non-null, as calls of the constructors.\<close>

lemma wrap_NonNull_List:
  assumes wf: "wf_state s" and n: "isNullableType (heap s) x"
  shows "\<exists>n s1 l s2. GraphQLNonNull s x = (Inr n, s1) \<and> GraphQLList s1 n = (Inr l, s2) \<and>
           stable s s2 \<and> wraps (heap s2) l '']!'' x"
proof -
  from n have ty: "isType (heap s) x" and "legal (isNonNullType (heap s) x) ''!]''"
    by (simp_all add: isNullableType_def)
  from reduce_legal [OF wf ty this(2)] obtain l s2 where r: "reduce s x ''!]'' = (Inr l, s2)"
    by blast
  from reduce_wraps [OF wf r] have "stable s s2" "wraps (heap s2) l '']!'' x" by simp_all
  moreover from reduce_two [OF r] obtain n s1 where
    "GraphQLNonNull s x = (Inr n, s1)" "GraphQLList s1 n = (Inr l, s2)"
    by (auto simp: wrapStep_markers)
  ultimately show ?thesis by blast
qed

lemma wrap_List_NonNull:
  assumes wf: "wf_state s" and ty: "isType (heap s) x"
  shows "\<exists>l s1 n s2. GraphQLList s x = (Inr l, s1) \<and> GraphQLNonNull s1 l = (Inr n, s2) \<and>
           stable s s2 \<and> wraps (heap s2) n ''!]'' x"
proof -
  have "legal (isNonNullType (heap s) x) '']!''" by simp
  from reduce_legal [OF wf ty this] obtain n s2 where r: "reduce s x '']!'' = (Inr n, s2)"
    by blast
  from reduce_wraps [OF wf r] have "stable s s2" "wraps (heap s2) n ''!]'' x" by simp_all
  moreover from reduce_two [OF r] obtain l s1 where
    "GraphQLList s x = (Inr l, s1)" "GraphQLNonNull s1 l = (Inr n, s2)"
    by (auto simp: wrapStep_markers)
  ultimately show ?thesis by blast
qed

lemma wrap_one:
  assumes wf: "wf_state s" and acc: "accepts k (heap s) x"
  shows "\<exists>l s1. factory k s x = (Inr (Ref l), s1) \<and> stable s s1 \<and>
           obj_at (heap s1) l = wrapper k x"
proof -
  from acc obtain a where "x = Ref a" by (blast dest: accepts_Ref)
  with factory_spec [OF wf, of k a] acc show ?thesis by (auto simp: stable_def)
qed

lemma testState_nullable: "isNullableType (heap testState) (Ref 0)"
  using testState_types(1) by (simp add: isObjectType_def isInstance_nullable)

lemma testState_toString: "toString (heap testState) (Ref 0) = Some ''Object''"
  by (simp add: toString_base isWrappingType_cases testState_def obj_at_def nameOf_def)

lemma isInputType_True_iff:
  "isInputType h v = Some True \<longleftrightarrow>
     isScalarType h v \<or> isEnumType h v \<or> isInputObjectType h v \<or>
     (isListType h v \<or> isNonNullType h v) \<and> isInputType h (ofType h v) = Some True"
proof (cases "isWrappingType h v")
  case True
  then have "\<not> isScalarType h v" "\<not> isEnumType h v" "\<not> isInputObjectType h v"
    by (auto simp: isWrappingType_cases base_preds)
  with True show ?thesis by (simp add: isInputType_wrap isWrappingType_def)
next
  case False
  then show ?thesis by (simp add: isInputType_base isWrappingType_def)
qed

lemma isOutputType_True_iff:
  "isOutputType h v = Some True \<longleftrightarrow>
     isScalarType h v \<or> isObjectType h v \<or> isInterfaceType h v \<or> isUnionType h v \<or>
     isEnumType h v \<or>
     (isListType h v \<or> isNonNullType h v) \<and> isOutputType h (ofType h v) = Some True"
proof (cases "isWrappingType h v")
  case True
  then have "\<not> isScalarType h v" "\<not> isEnumType h v" "\<not> isObjectType h v"
    "\<not> isInterfaceType h v" "\<not> isUnionType h v"
    by (auto simp: isWrappingType_cases base_preds)
  with True show ?thesis by (simp add: isOutputType_wrap isWrappingType_def)
next
  case False
  then show ?thesis by (simp add: isOutputType_base isWrappingType_def)
qed

lemma inputObject_wrapped:
  assumes wf: "wf_state s" and io: "isInputObjectType (heap s) x"
  shows "\<exists>n s1 l s2. GraphQLNonNull s x = (Inr n, s1) \<and> GraphQLList s1 n = (Inr l, s2) \<and>
           isInputType (heap s2) l = Some True \<and> isOutputType (heap s2) l = Some False"
proof -
  from io have inst: "isInstance InputObject (heap s) x" by (simp add: isInputObjectType_def)
  then have nu: "isNullableType (heap s) x" by (rule isInstance_nullable)
  from wrap_NonNull_List [OF wf nu] obtain n s1 l s2 where
    f: "GraphQLNonNull s x = (Inr n, s1)" "GraphQLList s1 n = (Inr l, s2)"
      "stable s s2" "wraps (heap s2) l '']!'' x" by blast
  from f(3) inst have i2: "isInstance InputObject (heap s2) x"
    by (blast intro: isInstance_extends stable_extends)
  then have nw: "\<not> isWrappingType (heap s2) x" by (rule isInstance_not_wrapping)
  from i2 have k: "isInputObjectType (heap s2) x" "\<not> isScalarType (heap s2) x"
    "\<not> isObjectType (heap s2) x" "\<not> isInterfaceType (heap s2) x"
    "\<not> isUnionType (heap s2) x" "\<not> isEnumType (heap s2) x"
    by (auto simp: base_preds split: val.splits obj.splits)
  from nw k have "isInputType (heap s2) x = Some True" "isOutputType (heap s2) x = Some False"
    by (simp_all add: isInputType_base isOutputType_base)
  with f(4) have "isInputType (heap s2) l = Some True" "isOutputType (heap s2) l = Some False"
    by (simp_all add: wraps_isInputType wraps_isOutputType)
  with f(1,2) show ?thesis by blast
qed

lemma reduce_again:
  assumes "wf_state s" "reduce s x cs = (Inr t, s1)" "extends s1 s2"
  shows "reduce s2 x cs = (Inr t, s2)"
  using assms
proof (induction cs arbitrary: t s1 rule: rev_induct)
  case Nil
  then show ?case by simp
next
  case (snoc c cs)
  from snoc.prems(2) obtain t0 s0 where r: "reduce s x cs = (Inr t0, s0)"
    and step: "wrapStep s0 t0 c = (Inr t, s1)"
    by (auto simp: reduce_snoc split: prod.splits sum.splits)
  from reduce_wraps [OF snoc.prems(1) r] have "wf_state s0" by (simp add: stable_def)
  from wrapStep_success [OF this step] obtain k a l where
    *: "keyOf c = Some k" "t0 = Ref a" "t = Ref l" "accepts k (heap s0) t0" "stable s0 s1"
       "slot s1 a k = Ref l" by blast
  from *(5) have e01: "extends s0 s1" by (rule stable_extends)
  from e01 snoc.prems(3) have "extends s0 s2" by (rule extends_trans)
  from snoc.IH [OF snoc.prems(1) r this] have r2: "reduce s2 x cs = (Inr t0, s2)" .
  from step * have "factory k s0 (Ref a) = (Inr (Ref l), s1)" by (simp add: wrapStep_keyOf)
  from factory_again [OF this _ *(6) e01 snoc.prems(3)] * 
  have "factory k s2 (Ref a) = (Inr (Ref l), s2)" by simp
  with r2 * show ?case by (simp add: reduce_snoc wrapStep_keyOf)
qed

lemma getNullableType_example:
  assumes wf: "wf_state s" and nm: "isNamedType (heap s) x"
  shows "\<exists>nn s1 l. wrapType s x ''!]!'' = (Inr nn, s1) \<and> wrapType s1 x ''!]'' = (Inr l, s1) \<and>
           isListType (heap s1) l \<and> getNullableType (heap s1) nn = l \<and>
           getNullableType (heap s1) l = l"
proof -
  from nm have ty: "isType (heap s) x" and nn: "\<not> isNonNullType (heap s) x"
    by (simp_all add: isNamedType_def)
  from nn have "legal (isNonNullType (heap s) x) (''!]'' @ ''!'')" by simp
  from reduce_legal [OF wf ty this] obtain t s1 where r: "reduce s x (''!]'' @ ''!'') = (Inr t, s1)"
    by blast
  then obtain l s0 where r0: "reduce s x ''!]'' = (Inr l, s0)"
    and step: "wrapStep s0 l CHR ''!'' = (Inr t, s1)"
    unfolding reduce_snoc by (auto split: prod.splits sum.splits)
  from reduce_wraps [OF wf r0] have st0: "stable s s0" and w0: "wraps (heap s0) l '']!'' x"
    by simp_all
  from st0 have wf0: "wf_state s0" by (rule stable_wf)
  from wrapStep_success [OF wf0 step] obtain a where
    *: "t = Ref a" "stable s0 s1" "obj_at (heap s1) a = wrapper KNonNull l"
    by (auto simp: keyOf_def)
  from *(2) have e: "extends s0 s1" by (rule stable_extends)
  from reduce_again [OF wf r0 e] have again: "reduce s1 x ''!]'' = (Inr l, s1)" .
  from w0 e have "wraps (heap s1) l '']!'' x" by (blast intro: wraps_extends)
  then obtain b where b: "l = Ref b" "isListType (heap s1) l"
    by (auto simp: wraps_Cons keyOf_def isListType_wrapper)
  then have lnn: "\<not> isNonNullType (heap s1) l" "\<not> absent l"
    by (auto simp: isListType_def isNonNullType_def absent_def split: obj.splits)
  from * have "getNullableType (heap s1) t = l"
    by (simp add: getNullableType_def absent_def isNonNullType_wrapper ofType_wrapper)
  moreover from lnn have "getNullableType (heap s1) l = l" by (simp add: getNullableType_def)
  ultimately show ?thesis using r again b by (simp add: wrapType_unfold)
qed

lemma slot_cache_eq: "wrapperCache s' = wrapperCache s \<Longrightarrow> slot s' a k = slot s a k"
  by (simp add: slot_def)

lemma factory_result_cases:
  assumes "factory k s y = (Inr w, s')"
  shows "w = Ref (length (heap s)) \<or> (\<exists>b. y = Ref b \<and> slot s b k = w)"
proof -
  from assms have acc: "accepts k (heap s) y" using factory_rejects [of k s y] by auto
  then obtain b where b: "y = Ref b" by (blast dest: accepts_Ref)
  from acc b have "factory k s (Ref b) =
     (if truthy (slot s b k) then (Inr (slot s b k), s)
      else (Inr (Ref (length (heap s))),
            cached (s\<lparr>heap := heap s @ [wrapper k (Ref b)]\<rparr>) b k (Ref (length (heap s)))))"
    by (simp only: factory_closed)
  with assms b show ?thesis by (cases "truthy (slot s b k)") auto
qed

lemma never_cached:
  assumes wf: "wf_state s" and ext: "extends s1 s'" and c: "wrapperCache s1 = wrapperCache s"
    and n: "length (heap s) < length (heap s1)"
  shows "fst (factory k' s' y) \<noteq> Inr (Ref (length (heap s)))"
proof
  assume eq: "fst (factory k' s' y) = Inr (Ref (length (heap s)))"
  obtain r s'' where f: "factory k' s' y = (r, s'')" by (cases "factory k' s' y")
  with eq have f': "factory k' s' y = (Inr (Ref (length (heap s))), s'')" by simp
  from ext obtain e where "heap s' = heap s1 @ e" by (blast dest: extends_heap)
  with n have len: "length (heap s) < length (heap s')" by simp
  from factory_result_cases [OF f'] len obtain b where
    sl: "slot s' b k' = Ref (length (heap s))" by auto
  from extends_old_slot [OF ext sl n] have "slot s1 b k' = Ref (length (heap s))" .
  with slot_cache_eq [OF c, of b k'] have sl0: "slot s b k' = Ref (length (heap s))" by simp
  from wf have "wf_cache s" by (simp add: wf_state_def)
  from wf_cache_in_heap [OF this sl0] have "length (heap s) < length (heap s)" .
  then show False by simp
qed

lemma construct_fresh:
  assumes wf: "wf_state s" and acc: "accepts k (heap s) x"
  shows "\<exists>w' s1. construct k s x = (Inr w', s1) \<and> stable s s1 \<and> w' = Ref (length (heap s)) \<and>
           obj_at (heap s1) (length (heap s)) = wrapper k x \<and>
           wrapperCache s1 = wrapperCache s \<and>
           (\<forall>cs k' y. fst (factory k' (run s1 cs) y) \<noteq> Inr w')"
proof -
  let ?n = "length (heap s)"
  from acc obtain a where a: "x = Ref a" by (blast dest: accepts_Ref)
  from construct_spec [OF wf, of k a] acc a obtain s1 where
    c: "construct k s x = (Inr (Ref ?n), s1)" "wf_state s1" "extends s s1"
       "obj_at (heap s1) ?n = wrapper k x" "wrapperCache s1 = wrapperCache s" by blast
  from c(4) have n1: "?n < length (heap s1)" by (simp add: obj_at_in_heap wrapper_not_Other)
  have nv: "\<forall>cs k' y. fst (factory k' (run s1 cs) y) \<noteq> Inr (Ref ?n)"
  proof (intro allI)
    fix cs k' y
    from c(2) have "extends s1 (run s1 cs)" by (simp add: run_stable stable_extends)
    from never_cached [OF wf this c(5) n1]
    show "fst (factory k' (run s1 cs) y) \<noteq> Inr (Ref ?n)" .
  qed
  from c(2,3) have "stable s s1" by (simp add: stable_def)
  with c(1,4,5) nv show ?thesis by blast
qed

lemma new_bypasses_cache:
  assumes wf: "wf_state s" and acc: "accepts k (heap s) x"
  shows "\<exists>w s1 w' s2. factory k s x = (Inr w, s1) \<and> construct k s1 x = (Inr w', s2) \<and>
           w' \<noteq> w \<and> obj_at (heap s2) (length (heap s1)) = wrapper k x \<and>
           w' = Ref (length (heap s1)) \<and> wrapperCache s2 = wrapperCache s1 \<and>
           (\<forall>cs. factory k (run s2 cs) x = (Inr w, run s2 cs)) \<and>
           (\<forall>cs k' y. fst (factory k' (run s2 cs) y) \<noteq> Inr w')"
proof -
  from acc obtain a where a: "x = Ref a" by (blast dest: accepts_Ref)
  from factory_spec [OF wf, of k a] acc a obtain l s1 where
    f: "factory k s x = (Inr (Ref l), s1)" "wf_state s1" "extends s s1"
       "obj_at (heap s1) l = wrapper k x" "slot s1 a k = Ref l" by blast
  from f(4) have l: "l < length (heap s1)" by (simp add: obj_at_in_heap wrapper_not_Other)
  from f(3) acc have acc1: "accepts k (heap s1) x" by (rule extends_accepts)
  from construct_fresh [OF f(2) acc1] obtain w' s2 where
    c: "construct k s1 x = (Inr w', s2)" "stable s1 s2" "w' = Ref (length (heap s1))"
       "obj_at (heap s2) (length (heap s1)) = wrapper k x" "wrapperCache s2 = wrapperCache s1"
       "\<forall>cs k' y. fst (factory k' (run s2 cs) y) \<noteq> Inr w'" by blast
  have again: "\<forall>cs. factory k (run s2 cs) x = (Inr (Ref l), run s2 cs)"
  proof
    fix cs
    from c(2) have "wf_state s2" by (rule stable_wf)
    then have "stable s2 (run s2 cs)" by (rule run_stable)
    with c(2) have "stable s1 (run s2 cs)" by (rule stable_trans)
    then have e: "extends s1 (run s2 cs)" by (rule stable_extends)
    from f(1) a have f1: "factory k s (Ref a) = (Inr (Ref l), s1)" by simp
    from acc a have acc': "accepts k (heap s) (Ref a)" by simp
    from factory_again [OF f1 acc' f(5) f(3) e] a
    show "factory k (run s2 cs) x = (Inr (Ref l), run s2 cs)" by simp
  qed
  from c(3) l have "w' \<noteq> Ref l" by simp
  with f(1) c again show ?thesis by blast
qed

section \<open>The claims\<close>

text \<open>
  C1. Identity memoisation: in a reachable state, for every type \<open>x\<close> the call
  \<^verbatim>\<open>GraphQLList(x)\<close> returns an instance that every later call \<^verbatim>\<open>GraphQLList(x)\<close>
  returns again, whatever the program did with this layer in between, and likewise
  \<^verbatim>\<open>GraphQLNonNull(x)\<close> for every nullable type \<open>x\<close>. The cache is keyed by the instance
  and the kind: two different instances get different wrappers (also when they have the
  same name and structure), and the list and the non-null wrapper of one instance differ.
\<close>

theorem wrapper_memoised:
  assumes "wf_state s"
  shows "(isType (heap s) x \<longrightarrow>
            (\<exists>w s1. GraphQLList s x = (Inr w, s1) \<and>
               (\<forall>cs. GraphQLList (run s1 cs) x = (Inr w, run s1 cs)))) \<and>
         (isNullableType (heap s) x \<longrightarrow>
            (\<exists>w s1. GraphQLNonNull s x = (Inr w, s1) \<and>
               (\<forall>cs. GraphQLNonNull (run s1 cs) x = (Inr w, run s1 cs)))) \<and>
         (isType (heap s) x \<and> isType (heap s) y \<and> x \<noteq> y \<longrightarrow>
            (\<exists>w s1 w' s2. GraphQLList s x = (Inr w, s1) \<and> GraphQLList s1 y = (Inr w', s2) \<and>
               w \<noteq> w')) \<and>
         (isNullableType (heap s) x \<and> isNullableType (heap s) y \<and> x \<noteq> y \<longrightarrow>
            (\<exists>w s1 w' s2. GraphQLNonNull s x = (Inr w, s1) \<and>
               GraphQLNonNull s1 y = (Inr w', s2) \<and> w \<noteq> w')) \<and>
         (isNullableType (heap s) x \<longrightarrow>
            (\<exists>w s1 w' s2. GraphQLList s x = (Inr w, s1) \<and> GraphQLNonNull s1 x = (Inr w', s2) \<and>
               w \<noteq> w'))"
proof (intro conjI impI)
  assume "isType (heap s) x"
  with factory_memo [OF assms, of KList x]
  show "\<exists>w s1. GraphQLList s x = (Inr w, s1) \<and>
          (\<forall>cs. GraphQLList (run s1 cs) x = (Inr w, run s1 cs))"
    by (simp add: factory_List accepts_List)
next
  assume "isNullableType (heap s) x"
  with factory_memo [OF assms, of KNonNull x]
  show "\<exists>w s1. GraphQLNonNull s x = (Inr w, s1) \<and>
          (\<forall>cs. GraphQLNonNull (run s1 cs) x = (Inr w, run s1 cs))"
    by (simp add: factory_NonNull accepts_NonNull)
next
  assume "isType (heap s) x \<and> isType (heap s) y \<and> x \<noteq> y"
  with factory_distinct [OF assms, of KList x KList y]
  show "\<exists>w s1 w' s2. GraphQLList s x = (Inr w, s1) \<and> GraphQLList s1 y = (Inr w', s2) \<and> w \<noteq> w'"
    by (simp add: factory_List accepts_List)
next
  assume "isNullableType (heap s) x \<and> isNullableType (heap s) y \<and> x \<noteq> y"
  with factory_distinct [OF assms, of KNonNull x KNonNull y]
  show "\<exists>w s1 w' s2. GraphQLNonNull s x = (Inr w, s1) \<and> GraphQLNonNull s1 y = (Inr w', s2) \<and>
          w \<noteq> w'"
    by (simp add: factory_NonNull accepts_NonNull)
next
  assume "isNullableType (heap s) x"
  with factory_distinct [OF assms, of KList x KNonNull x]
  show "\<exists>w s1 w' s2. GraphQLList s x = (Inr w, s1) \<and> GraphQLNonNull s1 x = (Inr w', s2) \<and>
          w \<noteq> w'"
    by (simp add: factory_List factory_NonNull accepts_List accepts_NonNull isNullableType_def)
qed

theorem wrapper_memoised_witness:
  "wf_state twoObjects \<and> isType (heap twoObjects) (Ref 0) \<and>
   isType (heap twoObjects) (Ref (Suc 0)) \<and> isNullableType (heap twoObjects) (Ref 0) \<and>
   isNullableType (heap twoObjects) (Ref (Suc 0)) \<and> Ref 0 \<noteq> Ref (Suc 0) \<and>
   obj_at (heap twoObjects) 0 = obj_at (heap twoObjects) (Suc 0) \<and>
   (\<exists>w s1. GraphQLList twoObjects (Ref 0) = (Inr w, s1) \<and> GraphQLList s1 (Ref 0) = (Inr w, s1)) \<and>
   (\<exists>w s1. GraphQLNonNull twoObjects (Ref 0) = (Inr w, s1) \<and>
      GraphQLNonNull s1 (Ref 0) = (Inr w, s1)) \<and>
   (\<exists>w s1 w' s2. GraphQLList twoObjects (Ref 0) = (Inr w, s1) \<and>
      GraphQLList s1 (Ref (Suc 0)) = (Inr w', s2) \<and> w \<noteq> w') \<and>
   (\<exists>w s1 w' s2. GraphQLNonNull twoObjects (Ref 0) = (Inr w, s1) \<and>
      GraphQLNonNull s1 (Ref (Suc 0)) = (Inr w', s2) \<and> w \<noteq> w') \<and>
   (\<exists>w s1 w' s2. GraphQLList twoObjects (Ref 0) = (Inr w, s1) \<and>
      GraphQLNonNull s1 (Ref 0) = (Inr w', s2) \<and> w \<noteq> w')"
proof -
  note t = wrapper_memoised [OF wf_twoObjects, of "Ref 0" "Ref (Suc 0)"]
  from t twoObjects_types obtain w s1 where
    "GraphQLList twoObjects (Ref 0) = (Inr w, s1)"
    "\<forall>cs. GraphQLList (run s1 cs) (Ref 0) = (Inr w, run s1 cs)" by blast
  from this(1) this(2) [rule_format, of "[]"]
  have 1: "\<exists>w s1. GraphQLList twoObjects (Ref 0) = (Inr w, s1) \<and> GraphQLList s1 (Ref 0) = (Inr w, s1)"
    by auto
  from t twoObjects_types obtain w s1 where
    "GraphQLNonNull twoObjects (Ref 0) = (Inr w, s1)"
    "\<forall>cs. GraphQLNonNull (run s1 cs) (Ref 0) = (Inr w, run s1 cs)" by blast
  from this(1) this(2) [rule_format, of "[]"]
  have 2: "\<exists>w s1. GraphQLNonNull twoObjects (Ref 0) = (Inr w, s1) \<and>
      GraphQLNonNull s1 (Ref 0) = (Inr w, s1)"
    by auto
  have 3: "obj_at (heap twoObjects) 0 = obj_at (heap twoObjects) (Suc 0)"
    by (simp add: twoObjects_def obj_at_def)
  from t twoObjects_types 1 2 3 wf_twoObjects show ?thesis by simp
qed

text \<open>
  C2. \<^verbatim>\<open>GraphQLNonNull\<close> over a value that is already a non-null type fails, in the call form
  and in the \<^verbatim>\<open>new\<close> form: the assertion throws, no object is built and the state is as
  before. Over a named type or a list it succeeds.
\<close>

theorem GraphQLNonNull_rejects_NonNull:
  "(isNonNullType (heap s) t \<longrightarrow>
      GraphQLNonNull s t = (Inl (ExpectedNullableType t), s) \<and>
      GraphQLNonNull_new s t = (Inl (ExpectedNullableType t), s)) \<and>
   (isNamedType (heap s) t \<or> isListType (heap s) t \<longrightarrow>
      (\<exists>w s'. GraphQLNonNull s t = (Inr w, s')) \<and> (\<exists>w s'. GraphQLNonNull_new s t = (Inr w, s')))"
proof (intro conjI impI)
  assume "isNonNullType (heap s) t"
  then show "GraphQLNonNull s t = (Inl (ExpectedNullableType t), s)"
    and "GraphQLNonNull_new s t = (Inl (ExpectedNullableType t), s)"
    by (simp_all add: GraphQLNonNull_def GraphQLNonNull_new_def assertNullableType_def
        isNullableType_def)
next
  assume "isNamedType (heap s) t \<or> isListType (heap s) t"
  then have n: "isNullableType (heap s) t"
    by (auto simp: isNamedType_def isNullableType_def isType_def isListType_def
        isNonNullType_def split: val.splits obj.splits)
  then have acc: "accepts KNonNull (heap s) t" by (simp add: accepts_NonNull)
  then obtain a where a: "t = Ref a" by (blast dest: accepts_Ref)
  with acc factory_closed [of KNonNull s a]
  show "\<exists>w s'. GraphQLNonNull s t = (Inr w, s')" by (simp add: factory_NonNull)
  from acc construct_accepts [of KNonNull s t]
  show "\<exists>w s'. GraphQLNonNull_new s t = (Inr w, s')" by (simp add: construct_NonNull)
qed

theorem GraphQLNonNull_rejects_NonNull_witness:
  "isNonNullType (heap nonNullState) (Ref 1) \<and> isNamedType (heap nonNullState) (Ref 0) \<and>
   GraphQLNonNull nonNullState (Ref 1) = (Inl (ExpectedNullableType (Ref 1)), nonNullState) \<and>
   GraphQLNonNull_new nonNullState (Ref 1) = (Inl (ExpectedNullableType (Ref 1)), nonNullState) \<and>
   (\<exists>w s'. GraphQLNonNull nonNullState (Ref 0) = (Inr w, s'))"
proof -
  have 1: "isNonNullType (heap nonNullState) (Ref 1)"
    by (simp add: nonNullState_def isNonNullType_def obj_at_def)
  have 2: "isNamedType (heap nonNullState) (Ref 0)"
    by (simp add: nonNullState_def isNamedType_def isType_def base_preds obj_at_def)
  from 1 2 GraphQLNonNull_rejects_NonNull [of nonNullState "Ref 1"]
    GraphQLNonNull_rejects_NonNull [of nonNullState "Ref 0"]
  show ?thesis by simp
qed

text \<open>
  C3. For a wrap spec that is not empty, \<^verbatim>\<open>wrapType\<close> is the fold from the left over the
  characters of the spec, starting from the base type and applying \<^verbatim>\<open>GraphQLList\<close> for
  \<^verbatim>\<open>]\<close> and \<^verbatim>\<open>GraphQLNonNull\<close> for \<^verbatim>\<open>!\<close> to the running result. In a reachable
  state, \<^verbatim>\<open>wrapType(x, "!]")\<close> of an object type \<open>x\<close> returns a list whose \<^verbatim>\<open>ofType\<close> is a
  non-null whose \<^verbatim>\<open>ofType\<close> is \<open>x\<close> itself; it is a list type, not a non-null type, and
  \<^verbatim>\<open>getNamedType\<close> of it is \<open>x\<close>.
\<close>

theorem wrapType_folds:
  "(wrapSpec \<noteq> [] \<longrightarrow>
      wrapType s t wrapSpec =
        foldl (\<lambda>acc specChar.
                 case acc of
                   (Inl e, s') \<Rightarrow> (Inl e, s')
                 | (Inr t', s') \<Rightarrow>
                     if specChar = CHR '']'' then GraphQLList s' t'
                     else if specChar = CHR ''!'' then GraphQLNonNull s' t'
                     else (Inl (InvalidWrapSpecChar specChar), s'))
          (Inr t, s) wrapSpec) \<and>
   (wf_state s \<and> isObjectType (heap s) x \<longrightarrow>
      (\<exists>l n s'. wrapType s x ''!]'' = (Inr (Ref l), s') \<and>
         obj_at (heap s') l = ListObj (Ref n) \<and> obj_at (heap s') n = NonNullObj x \<and>
         isListType (heap s') (Ref l) \<and> \<not> isNonNullType (heap s') (Ref l) \<and>
         getNamedType (heap s') (Ref l) = Some x))"
proof (rule conjI [OF impI impI])
  assume "wrapSpec \<noteq> []"
  then show "wrapType s t wrapSpec =
        foldl (\<lambda>acc specChar.
                 case acc of
                   (Inl e, s') \<Rightarrow> (Inl e, s')
                 | (Inr t', s') \<Rightarrow>
                     if specChar = CHR '']'' then GraphQLList s' t'
                     else if specChar = CHR ''!'' then GraphQLNonNull s' t'
                     else (Inl (InvalidWrapSpecChar specChar), s'))
          (Inr t, s) wrapSpec"
    by (simp add: wrapType_unfold reduce_foldl [unfolded wrapStep_def])
next
  assume a: "wf_state s \<and> isObjectType (heap s) x"
  then have wf: "wf_state s" and inst: "isInstance Object (heap s) x"
    by (simp_all add: isObjectType_def)
  from inst have ty: "isType (heap s) x" and nw: "\<not> isWrappingType (heap s) x"
    by (rule isInstance_isType, rule isInstance_not_wrapping)
  from nw have "legal (isNonNullType (heap s) x) ''!]''" by (simp add: isWrappingType_def)
  with wf ty obtain t s' where r: "wrapType s x ''!]'' = (Inr t, s')"
    by (blast dest: wrapType_legal)
  from wrapType_result [OF wf ty nw r]
  have w: "wraps (heap s') t '']!'' x" and g: "getNamedType (heap s') t = Some x" by simp_all
  from w obtain l n where t: "t = Ref l" and l: "obj_at (heap s') l = ListObj (Ref n)"
    and n: "obj_at (heap s') n = NonNullObj x"
    by (auto simp: wraps_Cons keyOf_def wrapper_def)
  from l have "isListType (heap s') (Ref l)" "\<not> isNonNullType (heap s') (Ref l)"
    by (simp_all add: isListType_def isNonNullType_def)
  with r g t l n show "\<exists>l n s'. wrapType s x ''!]'' = (Inr (Ref l), s') \<and>
         obj_at (heap s') l = ListObj (Ref n) \<and> obj_at (heap s') n = NonNullObj x \<and>
         isListType (heap s') (Ref l) \<and> \<not> isNonNullType (heap s') (Ref l) \<and>
         getNamedType (heap s') (Ref l) = Some x" by auto
qed

theorem wrapType_folds_witness:
  "wf_state testState \<and> isObjectType (heap testState) (Ref 0) \<and> ''!]'' \<noteq> [] \<and>
   (\<exists>l n s'. wrapType testState (Ref 0) ''!]'' = (Inr (Ref l), s') \<and>
      obj_at (heap s') l = ListObj (Ref n) \<and> obj_at (heap s') n = NonNullObj (Ref 0) \<and>
      getNamedType (heap s') (Ref l) = Some (Ref 0))"
  using wrapType_folds [where s = testState and x = "Ref 0" and t = "Ref 0"
      and wrapSpec = "''!]''", THEN conjunct2] wf_testState testState_types(1)
  by auto

text \<open>
  C4. Unwrap round trip: in a reachable state and for a named type \<open>x\<close>, whenever
  \<^verbatim>\<open>wrapType(x, wrapSpec)\<close> returns a type, \<^verbatim>\<open>getNamedType\<close> of that type returns \<open>x\<close>
  itself; and it does return a type for every spec that is not empty, uses only the two
  markers and never applies \<^verbatim>\<open>!\<close> twice in a row.
\<close>

theorem getNamedType_wrapType:
  assumes "wf_state s" "isNamedType (heap s) x"
  shows "(wrapType s x wrapSpec = (Inr t, s') \<longrightarrow> getNamedType (heap s') t = Some x) \<and>
         (wrapSpec \<noteq> [] \<and> legal False wrapSpec \<longrightarrow>
            (\<exists>t s'. wrapType s x wrapSpec = (Inr t, s') \<and> getNamedType (heap s') t = Some x))"
proof -
  from assms(2) have ty: "isType (heap s) x" and nw: "\<not> isWrappingType (heap s) x"
    by (simp_all add: isNamedType_def isWrappingType_def)
  have 1: "getNamedType (heap s') t = Some x" if "wrapType s x wrapSpec = (Inr t, s')" for t s'
    using wrapType_result [OF assms(1) ty nw that] by simp
  have 2: "\<exists>t s'. wrapType s x wrapSpec = (Inr t, s')" if "wrapSpec \<noteq> [] \<and> legal False wrapSpec"
  proof -
    from assms(2) have "isNonNullType (heap s) x = False" by (simp add: isNamedType_def)
    with that show ?thesis using wrapType_legal [OF assms(1) ty, of wrapSpec] by simp
  qed
  from 1 2 show ?thesis by blast
qed

theorem getNamedType_wrapType_witness:
  "wf_state testState \<and> isNamedType (heap testState) (Ref 0) \<and> ''!]!'' \<noteq> [] \<and>
   legal False ''!]!'' \<and>
   (\<exists>t s'. wrapType testState (Ref 0) ''!]!'' = (Inr t, s') \<and>
      getNamedType (heap s') t = Some (Ref 0))"
proof -
  have "isNamedType (heap testState) (Ref 0)"
    by (simp add: testState_def isNamedType_def isType_def base_preds obj_at_def)
  moreover have "legal False ''!]!''" by simp
  ultimately show ?thesis
    using getNamedType_wrapType [OF wf_testState, of "Ref 0" "''!]!''"] wf_testState by simp
qed

text \<open>
  C5. A list renders as \<^verbatim>\<open>[\<close>, the rendering of its \<^verbatim>\<open>ofType\<close>, \<^verbatim>\<open>]\<close>, and a non-null as
  the rendering of its \<^verbatim>\<open>ofType\<close> followed by \<^verbatim>\<open>!\<close>. In a reachable state every type
  \<open>x\<close> has a rendering \<open>r\<close>, \<^verbatim>\<open>GraphQLList(x)\<close> renders as \<open>[r]\<close> and, for a nullable
  \<open>x\<close>, \<^verbatim>\<open>GraphQLNonNull(x)\<close> renders as \<open>r!\<close>; the list of the non-null of \<open>x\<close> and the
  non-null of the list of \<open>x\<close> are different instances, rendering as \<open>[r!]\<close> and
  \<open>[r]!\<close>, which are different strings.
\<close>

theorem wrapper_rendering:
  "(isListType h w \<longrightarrow>
      toString h w = map_option (\<lambda>r. ''['' @ r @ '']'') (toString h (ofType h w))) \<and>
   (isNonNullType h w \<longrightarrow>
      toString h w = map_option (\<lambda>r. r @ ''!'') (toString h (ofType h w))) \<and>
   (wf_state s \<and> isType (heap s) x \<longrightarrow>
      (\<exists>r l s1. toString (heap s) x = Some r \<and> GraphQLList s x = (Inr l, s1) \<and>
         toString (heap s1) l = Some (''['' @ r @ '']''))) \<and>
   (wf_state s \<and> isNullableType (heap s) x \<longrightarrow>
      (\<exists>r n s1. toString (heap s) x = Some r \<and> GraphQLNonNull s x = (Inr n, s1) \<and>
         toString (heap s1) n = Some (r @ ''!''))) \<and>
   (wf_state s \<and> isNullableType (heap s) x \<longrightarrow>
      (\<exists>r n s1 ln s2 l s3 nl s4.
         toString (heap s) x = Some r \<and>
         GraphQLNonNull s x = (Inr n, s1) \<and> GraphQLList s1 n = (Inr ln, s2) \<and>
         GraphQLList s2 x = (Inr l, s3) \<and> GraphQLNonNull s3 l = (Inr nl, s4) \<and>
         ln \<noteq> nl \<and>
         toString (heap s4) ln = Some (''['' @ r @ ''!]'') \<and>
         toString (heap s4) nl = Some (''['' @ r @ '']!'') \<and>
         ''['' @ r @ ''!]'' \<noteq> ''['' @ r @ '']!''))"
proof (intro conjI)
  show "isListType h w \<longrightarrow>
      toString h w = map_option (\<lambda>r. ''['' @ r @ '']'') (toString h (ofType h w))"
  proof
    assume "isListType h w"
    then obtain a t where "w = Ref a" "obj_at h a = ListObj t"
      by (auto simp: isListType_def split: val.splits obj.splits)
    then show "toString h w = map_option (\<lambda>r. ''['' @ r @ '']'') (toString h (ofType h w))"
      by (cases "toString h t") (simp_all add: toString_list ofType_def)
  qed
next
  show "isNonNullType h w \<longrightarrow>
      toString h w = map_option (\<lambda>r. r @ ''!'') (toString h (ofType h w))"
  proof
    assume "isNonNullType h w"
    then obtain a t where "w = Ref a" "obj_at h a = NonNullObj t"
      by (auto simp: isNonNullType_def split: val.splits obj.splits)
    then show "toString h w = map_option (\<lambda>r. r @ ''!'') (toString h (ofType h w))"
      by (cases "toString h t") (simp_all add: toString_nonNull ofType_def)
  qed
next
  show "wf_state s \<and> isType (heap s) x \<longrightarrow>
      (\<exists>r l s1. toString (heap s) x = Some r \<and> GraphQLList s x = (Inr l, s1) \<and>
         toString (heap s1) l = Some (''['' @ r @ '']''))"
  proof
    assume a: "wf_state s \<and> isType (heap s) x"
    then have wf: "wf_state s" and ty: "isType (heap s) x" by simp_all
    from wf ty obtain r where r: "toString (heap s) x = Some r"
      by (auto simp: wf_state_def dest: toString_total)
    from wrap_one [OF wf, of KList x] ty obtain l s1 where
      f: "GraphQLList s x = (Inr (Ref l), s1)" "stable s s1" "obj_at (heap s1) l = ListObj x"
      by (auto simp: factory_List accepts_List wrapper_def)
    from r toString_stable [OF f(2) wf ty] have "toString (heap s1) x = Some r" by simp
    with f(3) have "toString (heap s1) (Ref l) = Some (''['' @ r @ '']'')"
      by (simp add: toString_list)
    with r f(1) show "\<exists>r l s1. toString (heap s) x = Some r \<and> GraphQLList s x = (Inr l, s1) \<and>
         toString (heap s1) l = Some (''['' @ r @ '']'')" by blast
  qed
next
  show "wf_state s \<and> isNullableType (heap s) x \<longrightarrow>
      (\<exists>r n s1. toString (heap s) x = Some r \<and> GraphQLNonNull s x = (Inr n, s1) \<and>
         toString (heap s1) n = Some (r @ ''!''))"
  proof
    assume a: "wf_state s \<and> isNullableType (heap s) x"
    then have wf: "wf_state s" and nu: "isNullableType (heap s) x" by simp_all
    from nu have ty: "isType (heap s) x" by (rule isNullableType_isType)
    from wf ty obtain r where r: "toString (heap s) x = Some r"
      by (auto simp: wf_state_def dest: toString_total)
    from wrap_one [OF wf, of KNonNull x] nu obtain l s1 where
      f: "GraphQLNonNull s x = (Inr (Ref l), s1)" "stable s s1"
        "obj_at (heap s1) l = NonNullObj x"
      by (auto simp: factory_NonNull accepts_NonNull wrapper_def)
    from r toString_stable [OF f(2) wf ty] have "toString (heap s1) x = Some r" by simp
    with f(3) have "toString (heap s1) (Ref l) = Some (r @ ''!'')"
      by (simp add: toString_nonNull)
    with r f(1) show "\<exists>r n s1. toString (heap s) x = Some r \<and>
         GraphQLNonNull s x = (Inr n, s1) \<and> toString (heap s1) n = Some (r @ ''!'')" by blast
  qed
next
  show "wf_state s \<and> isNullableType (heap s) x \<longrightarrow>
      (\<exists>r n s1 ln s2 l s3 nl s4.
         toString (heap s) x = Some r \<and>
         GraphQLNonNull s x = (Inr n, s1) \<and> GraphQLList s1 n = (Inr ln, s2) \<and>
         GraphQLList s2 x = (Inr l, s3) \<and> GraphQLNonNull s3 l = (Inr nl, s4) \<and>
         ln \<noteq> nl \<and>
         toString (heap s4) ln = Some (''['' @ r @ ''!]'') \<and>
         toString (heap s4) nl = Some (''['' @ r @ '']!'') \<and>
         ''['' @ r @ ''!]'' \<noteq> ''['' @ r @ '']!'')"
  proof
    assume a: "wf_state s \<and> isNullableType (heap s) x"
    then have wf: "wf_state s" and nu: "isNullableType (heap s) x" by simp_all
    from nu have ty: "isType (heap s) x" by (rule isNullableType_isType)
    from wf ty obtain r where r: "toString (heap s) x = Some r"
      by (auto simp: wf_state_def dest: toString_total)
    from wrap_NonNull_List [OF wf nu] obtain n s1 ln s2 where
      f: "GraphQLNonNull s x = (Inr n, s1)" "GraphQLList s1 n = (Inr ln, s2)"
        "stable s s2" "wraps (heap s2) ln '']!'' x" by blast
    from f(3) have wf2: "wf_state s2" and e2: "extends s s2"
      by (rule stable_wf, rule stable_extends)
    from e2 ty have ty2: "isType (heap s2) x" by (rule isType_extends)
    from wrap_List_NonNull [OF wf2 ty2] obtain l s3 nl s4 where
      g: "GraphQLList s2 x = (Inr l, s3)" "GraphQLNonNull s3 l = (Inr nl, s4)"
        "stable s2 s4" "wraps (heap s4) nl ''!]'' x" by blast
    from g(3) f(4) have w1: "wraps (heap s4) ln '']!'' x" by (rule wraps_extends_stable)
    from f(3) g(3) have "extends s s4" by (blast intro: stable_trans stable_extends)
    from r toString_extends [OF this wf ty] have r4: "toString (heap s4) x = Some r" by simp
    from wraps_toString [OF w1 r4] have t1: "toString (heap s4) ln = Some (''['' @ r @ ''!]'')"
      by simp
    from wraps_toString [OF g(4) r4] have t2: "toString (heap s4) nl = Some (''['' @ r @ '']!'')"
      by simp
    from t1 t2 have "ln \<noteq> nl" by auto
    with r f(1,2) g(1,2) t1 t2
    show "\<exists>r n s1 ln s2 l s3 nl s4.
         toString (heap s) x = Some r \<and>
         GraphQLNonNull s x = (Inr n, s1) \<and> GraphQLList s1 n = (Inr ln, s2) \<and>
         GraphQLList s2 x = (Inr l, s3) \<and> GraphQLNonNull s3 l = (Inr nl, s4) \<and>
         ln \<noteq> nl \<and>
         toString (heap s4) ln = Some (''['' @ r @ ''!]'') \<and>
         toString (heap s4) nl = Some (''['' @ r @ '']!'') \<and>
         ''['' @ r @ ''!]'' \<noteq> ''['' @ r @ '']!''"
      by (intro exI conjI) (assumption | simp)+
  qed
qed

theorem wrapper_rendering_witness:
  "wf_state testState \<and> isNullableType (heap testState) (Ref 0) \<and>
   isType (heap testState) (Ref 0) \<and>
   (\<exists>n s1 ln s2 l s3 nl s4.
      GraphQLNonNull testState (Ref 0) = (Inr n, s1) \<and> GraphQLList s1 n = (Inr ln, s2) \<and>
      GraphQLList s2 (Ref 0) = (Inr l, s3) \<and> GraphQLNonNull s3 l = (Inr nl, s4) \<and>
      ln \<noteq> nl \<and>
      toString (heap s4) ln = Some ''[Object!]'' \<and>
      toString (heap s4) nl = Some ''[Object]!'')"
proof -
  note t = wrapper_rendering [where s = testState and x = "Ref 0" and h = "[]" and w = Null]
  have ty: "isType (heap testState) (Ref 0)"
    using testState_nullable by (rule isNullableType_isType)
  from t wf_testState testState_nullable obtain r n s1 ln s2 l s3 nl s4 where
    *: "toString (heap testState) (Ref 0) = Some r"
      "GraphQLNonNull testState (Ref 0) = (Inr n, s1)" "GraphQLList s1 n = (Inr ln, s2)"
      "GraphQLList s2 (Ref 0) = (Inr l, s3)" "GraphQLNonNull s3 l = (Inr nl, s4)"
      "ln \<noteq> nl" "toString (heap s4) ln = Some (''['' @ r @ ''!]'')"
      "toString (heap s4) nl = Some (''['' @ r @ '']!'')"
    by blast
  from *(1) testState_toString have "r = ''Object''" by simp
  with * have "toString (heap s4) ln = Some ''[Object!]''"
    "toString (heap s4) nl = Some ''[Object]!''" by simp_all
  with * wf_testState testState_nullable ty show ?thesis by blast
qed

text \<open>
  C6. For every type value exactly one of the eight base-variant predicates is true. The
  derived categories overlap: a scalar type is at once a leaf, a nullable, a named, an
  input and an output type.
\<close>

theorem base_variant_exclusive:
  "(isType h v \<longrightarrow>
     length (filter id [isScalarType h v, isObjectType h v, isInterfaceType h v,
       isUnionType h v, isEnumType h v, isInputObjectType h v, isListType h v,
       isNonNullType h v]) = 1) \<and>
   (isScalarType h v \<longrightarrow> isLeafType h v \<and> isNullableType h v \<and> isNamedType h v \<and>
      isInputType h v = Some True \<and> isOutputType h v = Some True)"
proof (rule conjI [OF impI impI])
  assume ty: "isType h v"
  then obtain a where a: "v = Ref a" by (blast dest: isType_Ref)
  show "length (filter id [isScalarType h v, isObjectType h v, isInterfaceType h v,
       isUnionType h v, isEnumType h v, isInputObjectType h v, isListType h v,
       isNonNullType h v]) = 1"
  proof (cases "obj_at h a")
    case (NamedObj c n)
    with a show ?thesis by (cases c) (simp_all add: base_preds)
  next
    case OtherObj
    with ty a show ?thesis by (simp add: isType_obj_at)
  qed (simp_all add: a base_preds)
next
  assume sc: "isScalarType h v"
  then have nw: "\<not> isListType h v" "\<not> isNonNullType h v"
    by (auto simp: base_preds split: val.splits obj.splits)
  with sc show "isLeafType h v \<and> isNullableType h v \<and> isNamedType h v \<and>
      isInputType h v = Some True \<and> isOutputType h v = Some True"
    by (simp add: isLeafType_def isNullableType_def isNamedType_def isType_def
        isInputType_base isOutputType_base isWrappingType_def)
qed

theorem base_variant_exclusive_witness:
  "isType (heap testState) (Ref 5) \<and> isScalarType (heap testState) (Ref 5) \<and>
   length (filter id [isScalarType (heap testState) (Ref 5), isObjectType (heap testState) (Ref 5),
     isInterfaceType (heap testState) (Ref 5), isUnionType (heap testState) (Ref 5),
     isEnumType (heap testState) (Ref 5), isInputObjectType (heap testState) (Ref 5),
     isListType (heap testState) (Ref 5), isNonNullType (heap testState) (Ref 5)]) = 1 \<and>
   isLeafType (heap testState) (Ref 5) \<and> isNullableType (heap testState) (Ref 5)"
proof -
  have "isScalarType (heap testState) (Ref 5)" by (rule testState_types)
  moreover from this have "isType (heap testState) (Ref 5)" by (simp add: isType_def)
  ultimately show ?thesis using base_variant_exclusive [of "heap testState" "Ref 5"] by blast
qed

text \<open>
  C7. \<^verbatim>\<open>isInputType\<close> is true exactly for a scalar, an enum, an input object, or a list or
  non-null whose \<^verbatim>\<open>ofType\<close> is an input type; \<^verbatim>\<open>isOutputType\<close> exactly for a scalar, an
  object, an interface, a union, an enum, or a list or non-null whose \<^verbatim>\<open>ofType\<close> is an
  output type. Both return on every value of a well-formed heap. For an input object type
  \<open>x\<close> of a reachable state, the list of the non-null of \<open>x\<close> is an input type and not an
  output type.
\<close>

theorem input_output_classification:
  "(isInputType h v = Some True \<longleftrightarrow>
      isScalarType h v \<or> isEnumType h v \<or> isInputObjectType h v \<or>
      (isListType h v \<or> isNonNullType h v) \<and> isInputType h (ofType h v) = Some True) \<and>
   (isOutputType h v = Some True \<longleftrightarrow>
      isScalarType h v \<or> isObjectType h v \<or> isInterfaceType h v \<or> isUnionType h v \<or>
      isEnumType h v \<or>
      (isListType h v \<or> isNonNullType h v) \<and> isOutputType h (ofType h v) = Some True) \<and>
   (wf_heap h \<longrightarrow> (\<exists>b. isInputType h v = Some b) \<and> (\<exists>b. isOutputType h v = Some b)) \<and>
   (wf_state s \<and> isInputObjectType (heap s) x \<longrightarrow>
      (\<exists>n s1 l s2. GraphQLNonNull s x = (Inr n, s1) \<and> GraphQLList s1 n = (Inr l, s2) \<and>
         isInputType (heap s2) l = Some True \<and> isOutputType (heap s2) l = Some False))"
  using isInputType_True_iff [of h v] isOutputType_True_iff [of h v]
    isInputType_total [of h v] isOutputType_total [of h v] inputObject_wrapped [of s x]
  by blast

theorem input_output_classification_witness:
  "wf_state testState \<and> wf_heap (heap testState) \<and>
   isInputObjectType (heap testState) (Ref 4) \<and>
   (\<exists>n s1 l s2. GraphQLNonNull testState (Ref 4) = (Inr n, s1) \<and>
      GraphQLList s1 n = (Inr l, s2) \<and>
      isInputType (heap s2) l = Some True \<and> isOutputType (heap s2) l = Some False) \<and>
   (\<exists>b. isInputType (heap testState) (Ref 4) = Some b)"
proof -
  have "wf_heap (heap testState)" using wf_testState by (simp add: wf_state_def)
  with input_output_classification [where s = testState and x = "Ref 4"
      and h = "heap testState" and v = "Ref 4"] wf_testState testState_types(2)
  show ?thesis by blast
qed

text \<open>
  C8. \<^verbatim>\<open>wrapType\<close> with the empty spec throws the zero-length error and leaves the state as
  it was; with a spec that contains a character other than \<^verbatim>\<open>]\<close> and \<^verbatim>\<open>!\<close> it throws,
  whatever the other characters are, and returns no type.
\<close>

theorem wrapType_rejects_bad_spec:
  "wrapType s t [] = (Inl ZeroLengthWrapSpec, s) \<and>
   ((\<exists>c \<in> set wrapSpec. c \<noteq> CHR '']'' \<and> c \<noteq> CHR ''!'') \<longrightarrow>
      (\<exists>e s'. wrapType s t wrapSpec = (Inl e, s')))"
proof (intro conjI impI)
  show "wrapType s t [] = (Inl ZeroLengthWrapSpec, s)" by (simp add: wrapType_unfold)
next
  assume "\<exists>c \<in> set wrapSpec. c \<noteq> CHR '']'' \<and> c \<noteq> CHR ''!''"
  then obtain c where "c \<in> set wrapSpec" "keyOf c = None" by (auto simp: keyOf_def)
  then have "\<exists>e s'. reduce s t wrapSpec = (Inl e, s')" by (rule reduce_invalid)
  then show "\<exists>e s'. wrapType s t wrapSpec = (Inl e, s')" by (auto simp: wrapType_unfold)
qed

theorem wrapType_rejects_bad_spec_witness:
  "(\<exists>c \<in> set '']x''. c \<noteq> CHR '']'' \<and> c \<noteq> CHR ''!'') \<and>
   wrapType testState (Ref 0) [] = (Inl ZeroLengthWrapSpec, testState) \<and>
   (\<exists>e s'. wrapType testState (Ref 0) '']x'' = (Inl e, s'))"
  using wrapType_rejects_bad_spec [of testState "Ref 0" "'']x''"] by simp

text \<open>
  C9. \<^verbatim>\<open>getNullableType\<close> returns \<^verbatim>\<open>undefined\<close> for \<^verbatim>\<open>undefined\<close> and for \<^verbatim>\<open>null\<close>; for
  a non-null type it returns the \<^verbatim>\<open>ofType\<close> of that type; any other value that is not
  absent is returned as it is. It unwraps once: of the non-null of the list of the non-null
  of a named type \<open>x\<close> it returns the list of the non-null of \<open>x\<close>, the very instance
  that \<^verbatim>\<open>wrapType(x, "!]")\<close> returns, which is a list and is returned unchanged.
\<close>

theorem getNullableType_unwraps_once:
  "getNullableType h Undefined = Undefined \<and> getNullableType h Null = Undefined \<and>
   (isNonNullType h v \<longrightarrow> getNullableType h v = ofType h v) \<and>
   (\<not> absent v \<and> \<not> isNonNullType h v \<longrightarrow> getNullableType h v = v) \<and>
   (wf_state s \<and> isNamedType (heap s) x \<longrightarrow>
      (\<exists>nn s1 l. wrapType s x ''!]!'' = (Inr nn, s1) \<and> wrapType s1 x ''!]'' = (Inr l, s1) \<and>
         isListType (heap s1) l \<and> getNullableType (heap s1) nn = l \<and>
         getNullableType (heap s1) l = l))"
proof -
  have "isNonNullType h v \<Longrightarrow> \<not> absent v"
    by (auto simp: isNonNullType_def absent_def split: val.splits)
  then show ?thesis
    using getNullableType_example [of s x]
    by (auto simp: getNullableType_def absent_def)
qed

theorem getNullableType_unwraps_once_witness:
  "wf_state testState \<and> isNamedType (heap testState) (Ref 0) \<and> \<not> absent (Ref 0) \<and>
   \<not> isNonNullType (heap testState) (Ref 0) \<and>
   getNullableType (heap testState) (Ref 0) = Ref 0 \<and>
   isNonNullType (heap nonNullState) (Ref 1) \<and>
   getNullableType (heap nonNullState) (Ref 1) = Ref 0 \<and>
   (\<exists>nn s1 l. wrapType testState (Ref 0) ''!]!'' = (Inr nn, s1) \<and>
      wrapType s1 (Ref 0) ''!]'' = (Inr l, s1) \<and> getNullableType (heap s1) nn = l)"
proof -
  have 1: "isNamedType (heap testState) (Ref 0)" "\<not> isNonNullType (heap testState) (Ref 0)"
    by (simp_all add: testState_def isNamedType_def isType_def base_preds obj_at_def)
  have 2: "\<not> absent (Ref 0)" by (simp add: absent_def)
  have 3: "isNonNullType (heap nonNullState) (Ref 1)"
    "ofType (heap nonNullState) (Ref 1) = Ref 0"
    by (simp_all add: nonNullState_def isNonNullType_def ofType_def obj_at_def)
  from getNullableType_unwraps_once [where h = "heap testState" and v = "Ref 0"
      and s = testState and x = "Ref 0"]
    getNullableType_unwraps_once [where h = "heap nonNullState" and v = "Ref 1"
      and s = testState and x = "Ref 0"] 1 2 3 wf_testState
  show ?thesis by auto
qed

text \<open>
  C10. The \<^verbatim>\<open>new\<close> form bypasses the cache. In a reachable state, after
  \<^verbatim>\<open>GraphQLList(x)\<close> returned \<open>w\<close>, \<^verbatim>\<open>new GraphQLList(x)\<close> returns a list \<open>w'\<close> over
  \<open>x\<close> that is not \<open>w\<close> and leaves the cache as it was; whatever the program does
  with this layer afterwards, \<^verbatim>\<open>GraphQLList(x)\<close> still returns \<open>w\<close> and no call
  \<^verbatim>\<open>GraphQLList(y)\<close> ever returns \<open>w'\<close>. The same holds when no wrapper of \<open>x\<close> was
  cached before, and for \<^verbatim>\<open>GraphQLNonNull\<close> over a nullable \<open>x\<close>.
\<close>

theorem new_bypasses_memoisation:
  assumes "wf_state s"
  shows "(isType (heap s) x \<longrightarrow>
            (\<exists>w s1 w' s2. GraphQLList s x = (Inr w, s1) \<and> GraphQLList_new s1 x = (Inr w', s2) \<and>
               w' \<noteq> w \<and> isListType (heap s2) w' \<and> ofType (heap s2) w' = x \<and>
               wrapperCache s2 = wrapperCache s1 \<and>
               (\<forall>cs. GraphQLList (run s2 cs) x = (Inr w, run s2 cs)) \<and>
               (\<forall>cs y. fst (GraphQLList (run s2 cs) y) \<noteq> Inr w'))) \<and>
         (isNullableType (heap s) x \<longrightarrow>
            (\<exists>w s1 w' s2. GraphQLNonNull s x = (Inr w, s1) \<and>
               GraphQLNonNull_new s1 x = (Inr w', s2) \<and>
               w' \<noteq> w \<and> isNonNullType (heap s2) w' \<and> ofType (heap s2) w' = x \<and>
               wrapperCache s2 = wrapperCache s1 \<and>
               (\<forall>cs. GraphQLNonNull (run s2 cs) x = (Inr w, run s2 cs)) \<and>
               (\<forall>cs y. fst (GraphQLNonNull (run s2 cs) y) \<noteq> Inr w'))) \<and>
         (isType (heap s) x \<longrightarrow>
            (\<exists>w' s1. GraphQLList_new s x = (Inr w', s1) \<and> wrapperCache s1 = wrapperCache s \<and>
               (\<forall>cs y. fst (GraphQLList (run s1 cs) y) \<noteq> Inr w'))) \<and>
         (isNullableType (heap s) x \<longrightarrow>
            (\<exists>w' s1. GraphQLNonNull_new s x = (Inr w', s1) \<and> wrapperCache s1 = wrapperCache s \<and>
               (\<forall>cs y. fst (GraphQLNonNull (run s1 cs) y) \<noteq> Inr w'))) \<and>
         (\<not> isType (heap s) x \<longrightarrow> GraphQLList_new s x = (Inl (ExpectedType x), s)) \<and>
         (\<not> isNullableType (heap s) x \<longrightarrow>
            GraphQLNonNull_new s x = (Inl (ExpectedNullableType x), s))"
proof (intro conjI impI)
  assume "isType (heap s) x"
  then have "accepts KList (heap s) x" by (simp add: accepts_List)
  from new_bypasses_cache [OF assms this] obtain w s1 w' s2 where
    *: "GraphQLList s x = (Inr w, s1)" "GraphQLList_new s1 x = (Inr w', s2)" "w' \<noteq> w"
       "obj_at (heap s2) (length (heap s1)) = ListObj x" "w' = Ref (length (heap s1))"
       "wrapperCache s2 = wrapperCache s1"
       "\<forall>cs. GraphQLList (run s2 cs) x = (Inr w, run s2 cs)"
       "\<forall>cs k' y. fst (factory k' (run s2 cs) y) \<noteq> Inr w'"
    unfolding factory_List construct_List wrapper_def by auto
  from *(8) have "\<forall>cs y. fst (GraphQLList (run s2 cs) y) \<noteq> Inr w'"
    unfolding factory_List [symmetric] by blast
  moreover from *(4,5) have "isListType (heap s2) w'" "ofType (heap s2) w' = x"
    by (simp_all add: isListType_def ofType_def)
  ultimately show "\<exists>w s1 w' s2. GraphQLList s x = (Inr w, s1) \<and>
      GraphQLList_new s1 x = (Inr w', s2) \<and> w' \<noteq> w \<and> isListType (heap s2) w' \<and>
      ofType (heap s2) w' = x \<and> wrapperCache s2 = wrapperCache s1 \<and>
      (\<forall>cs. GraphQLList (run s2 cs) x = (Inr w, run s2 cs)) \<and>
      (\<forall>cs y. fst (GraphQLList (run s2 cs) y) \<noteq> Inr w')"
    using *(1,2,3,6,7) by blast
next
  assume "isNullableType (heap s) x"
  then have "accepts KNonNull (heap s) x" by (simp add: accepts_NonNull)
  from new_bypasses_cache [OF assms this] obtain w s1 w' s2 where
    *: "GraphQLNonNull s x = (Inr w, s1)" "GraphQLNonNull_new s1 x = (Inr w', s2)" "w' \<noteq> w"
       "obj_at (heap s2) (length (heap s1)) = NonNullObj x" "w' = Ref (length (heap s1))"
       "wrapperCache s2 = wrapperCache s1"
       "\<forall>cs. GraphQLNonNull (run s2 cs) x = (Inr w, run s2 cs)"
       "\<forall>cs k' y. fst (factory k' (run s2 cs) y) \<noteq> Inr w'"
    unfolding factory_NonNull construct_NonNull wrapper_def by auto
  from *(8) have "\<forall>cs y. fst (GraphQLNonNull (run s2 cs) y) \<noteq> Inr w'"
    unfolding factory_NonNull [symmetric] by blast
  moreover from *(4,5) have "isNonNullType (heap s2) w'" "ofType (heap s2) w' = x"
    by (simp_all add: isNonNullType_def ofType_def)
  ultimately show "\<exists>w s1 w' s2. GraphQLNonNull s x = (Inr w, s1) \<and>
      GraphQLNonNull_new s1 x = (Inr w', s2) \<and> w' \<noteq> w \<and> isNonNullType (heap s2) w' \<and>
      ofType (heap s2) w' = x \<and> wrapperCache s2 = wrapperCache s1 \<and>
      (\<forall>cs. GraphQLNonNull (run s2 cs) x = (Inr w, run s2 cs)) \<and>
      (\<forall>cs y. fst (GraphQLNonNull (run s2 cs) y) \<noteq> Inr w')"
    using *(1,2,3,6,7) by blast
next
  assume "isType (heap s) x"
  then have "accepts KList (heap s) x" by (simp add: accepts_List)
  from construct_fresh [OF assms this] obtain w' s1 where
    *: "GraphQLList_new s x = (Inr w', s1)" "wrapperCache s1 = wrapperCache s"
       "\<forall>cs k' y. fst (factory k' (run s1 cs) y) \<noteq> Inr w'"
    unfolding construct_List by blast
  from *(3) have "\<forall>cs y. fst (GraphQLList (run s1 cs) y) \<noteq> Inr w'"
    unfolding factory_List [symmetric] by blast
  with *(1,2) show "\<exists>w' s1. GraphQLList_new s x = (Inr w', s1) \<and>
      wrapperCache s1 = wrapperCache s \<and>
      (\<forall>cs y. fst (GraphQLList (run s1 cs) y) \<noteq> Inr w')" by blast
next
  assume "isNullableType (heap s) x"
  then have "accepts KNonNull (heap s) x" by (simp add: accepts_NonNull)
  from construct_fresh [OF assms this] obtain w' s1 where
    *: "GraphQLNonNull_new s x = (Inr w', s1)" "wrapperCache s1 = wrapperCache s"
       "\<forall>cs k' y. fst (factory k' (run s1 cs) y) \<noteq> Inr w'"
    unfolding construct_NonNull by blast
  from *(3) have "\<forall>cs y. fst (GraphQLNonNull (run s1 cs) y) \<noteq> Inr w'"
    unfolding factory_NonNull [symmetric] by blast
  with *(1,2) show "\<exists>w' s1. GraphQLNonNull_new s x = (Inr w', s1) \<and>
      wrapperCache s1 = wrapperCache s \<and>
      (\<forall>cs y. fst (GraphQLNonNull (run s1 cs) y) \<noteq> Inr w')" by blast
next
  assume "\<not> isType (heap s) x"
  then show "GraphQLList_new s x = (Inl (ExpectedType x), s)"
    by (simp add: GraphQLList_new_def assertType_def)
next
  assume "\<not> isNullableType (heap s) x"
  then show "GraphQLNonNull_new s x = (Inl (ExpectedNullableType x), s)"
    by (simp add: GraphQLNonNull_new_def assertNullableType_def)
qed

theorem new_bypasses_memoisation_witness:
  "wf_state testState \<and> isType (heap testState) (Ref 0) \<and>
   isNullableType (heap testState) (Ref 0) \<and>
   GraphQLList_new testState Null = (Inl (ExpectedType Null), testState) \<and>
   (\<exists>w s1 w' s2. GraphQLList testState (Ref 0) = (Inr w, s1) \<and>
      GraphQLList_new s1 (Ref 0) = (Inr w', s2) \<and> w' \<noteq> w \<and> ofType (heap s2) w' = Ref 0 \<and>
      GraphQLList s2 (Ref 0) = (Inr w, s2)) \<and>
   (\<exists>w s1 w' s2. GraphQLNonNull testState (Ref 0) = (Inr w, s1) \<and>
      GraphQLNonNull_new s1 (Ref 0) = (Inr w', s2) \<and> w' \<noteq> w \<and> ofType (heap s2) w' = Ref 0 \<and>
      GraphQLNonNull s2 (Ref 0) = (Inr w, s2))"
proof -
  note t = new_bypasses_memoisation [OF wf_testState, of "Ref 0"]
  have ty: "isType (heap testState) (Ref 0)"
    using testState_nullable by (rule isNullableType_isType)
  from t ty obtain w s1 w' s2 where
    "GraphQLList testState (Ref 0) = (Inr w, s1)" "GraphQLList_new s1 (Ref 0) = (Inr w', s2)"
    "w' \<noteq> w" "ofType (heap s2) w' = Ref 0"
    "\<forall>cs. GraphQLList (run s2 cs) (Ref 0) = (Inr w, run s2 cs)" by blast
  from this(1-4) this(5) [rule_format, of "[]"]
  have 1: "\<exists>w s1 w' s2. GraphQLList testState (Ref 0) = (Inr w, s1) \<and>
      GraphQLList_new s1 (Ref 0) = (Inr w', s2) \<and> w' \<noteq> w \<and> ofType (heap s2) w' = Ref 0 \<and>
      GraphQLList s2 (Ref 0) = (Inr w, s2)" by auto
  from t testState_nullable obtain w s1 w' s2 where
    "GraphQLNonNull testState (Ref 0) = (Inr w, s1)"
    "GraphQLNonNull_new s1 (Ref 0) = (Inr w', s2)"
    "w' \<noteq> w" "ofType (heap s2) w' = Ref 0"
    "\<forall>cs. GraphQLNonNull (run s2 cs) (Ref 0) = (Inr w, run s2 cs)" by blast
  from this(1-4) this(5) [rule_format, of "[]"]
  have 2: "\<exists>w s1 w' s2. GraphQLNonNull testState (Ref 0) = (Inr w, s1) \<and>
      GraphQLNonNull_new s1 (Ref 0) = (Inr w', s2) \<and> w' \<noteq> w \<and> ofType (heap s2) w' = Ref 0 \<and>
      GraphQLNonNull s2 (Ref 0) = (Inr w, s2)" by auto
  have "\<not> isType (heap testState) Null" by (rule isType_absent)
  with new_bypasses_memoisation [OF wf_testState, of Null]
  have 3: "GraphQLList_new testState Null = (Inl (ExpectedType Null), testState)" by blast
  from 1 2 3 wf_testState ty testState_nullable show ?thesis by blast
qed

end
